theory Spec2Isabelle
  imports Main "HOL-Library.Multiset"
begin

section \<open>Data model\<close>

text \<open>
  The dataset type as the tests mock it (\<^verbatim>\<open>DS = namedtuple("DS", "name units")\<close>): the
  code under verification reads only the \<open>name\<close> attribute.
\<close>

record DatasetType =
  name :: string
  units :: "string list"

text \<open>
  A Python \<^verbatim>\<open>dict\<close> from keys to dataset types, kept in insertion order; the code only
  tests it for truth and iterates over \<^verbatim>\<open>.values()\<close>. A class method may also hand back
  \<^verbatim>\<open>None\<close>, which the guards \<^verbatim>\<open>if taskInputs:\<close> skip, hence the option.
\<close>

type_synonym dsdict = "(string \<times> DatasetType) list"

definition truthy :: "dsdict option \<Rightarrow> bool" where
  "truthy d = (case d of None \<Rightarrow> False | Some kvs \<Rightarrow> kvs \<noteq> [])"

definition dictValues :: "dsdict option \<Rightarrow> DatasetType list" where
  "dictValues d = (case d of None \<Rightarrow> [] | Some kvs \<Rightarrow> map snd kvs)"

text \<open>A task class: the two class methods every SuperTask class exposes.\<close>

record 'cfg TaskClass =
  getInputDatasetTypes :: "'cfg \<Rightarrow> dsdict option"
  getOutputDatasetTypes :: "'cfg \<Rightarrow> dsdict option"

text \<open>\<^verbatim>\<open>TaskDef(taskName, config, taskClass, label)\<close>; \<open>taskClass\<close> may be \<^verbatim>\<open>None\<close>.\<close>

record 'cfg TaskDef =
  taskName :: string
  config :: 'cfg
  taskClass :: "'cfg TaskClass option"
  label :: string

text \<open>Exceptions, as values.\<close>

datatype error =
    AttributeError
  | KeyError
  | ImportError string
  | DuplicateOutputError string string string
  | MissingTaskFactoryError string
  | PipelineDataCycleError

record 'cfg TaskFactory =
  loadTaskClass :: "string \<Rightarrow> error + ('cfg TaskClass \<times> string)"

record ('cfg, 'reg) GraphBuilder =
  taskFactory :: "'cfg TaskFactory option"
  registry :: 'reg
  userQuery :: "string option"

typedecl QuantumGraph

section \<open>GraphBuilder (graphBuilder.py)\<close>

subsection \<open>The object store\<close>

text \<open>
  TaskDef objects live in a store; a reference is an index into it. \<^verbatim>\<open>copy.copy\<close>
  allocates a new object at the end of the store with the same field values, and an
  attribute assignment overwrites one field of one object.
\<close>

type_synonym 'cfg heap = "'cfg TaskDef list"
type_synonym ref = nat

definition copy_copy :: "'cfg heap \<Rightarrow> ref \<Rightarrow> ref \<times> 'cfg heap" where
  "copy_copy h r = (length h, h @ [h ! r])"

definition set_taskClass :: "'cfg heap \<Rightarrow> ref \<Rightarrow> 'cfg TaskClass \<Rightarrow> 'cfg heap" where
  "set_taskClass h r c = h[r := (h ! r)\<lparr>taskClass := Some c\<rparr>]"

definition set_taskName :: "'cfg heap \<Rightarrow> ref \<Rightarrow> string \<Rightarrow> 'cfg heap" where
  "set_taskName h r n = h[r := (h ! r)\<lparr>taskName := n\<rparr>]"

subsection \<open>\<^verbatim>\<open>_loadTaskClass\<close>\<close>

definition priv_loadTaskClass ::
  "('cfg, 'reg) GraphBuilder \<Rightarrow> 'cfg heap \<Rightarrow> ref \<Rightarrow> (error + ref) \<times> 'cfg heap" where
  "priv_loadTaskClass self h taskDef =
     (if taskClass (h ! taskDef) = None then
        (case taskFactory self of
           None \<Rightarrow> (Inl AttributeError, h)
         | Some factory \<Rightarrow>
             (case loadTaskClass factory (taskName (h ! taskDef)) of
                Inl e \<Rightarrow> (Inl e, h)
              | Inr (tClass, tName) \<Rightarrow>
                  (let (taskDef', h1) = copy_copy h taskDef;
                       h2 = set_taskClass h1 taskDef' tClass;
                       h3 = set_taskName h2 taskDef' tName
                   in (Inr taskDef', h3))))
      else (Inr taskDef, h))"

subsection \<open>\<^verbatim>\<open>buildIODatasets\<close>\<close>

text \<open>
  The method does not use \<^verbatim>\<open>self\<close>. The loop state: the lookup table
  \<^verbatim>\<open>allDatasetTypes\<close> and the two sets of names \<^verbatim>\<open>inputs\<close> and \<^verbatim>\<open>outputs\<close>.
\<close>

type_synonym iostate = "(string \<rightharpoonup> DatasetType) \<times> string set \<times> string set"

fun addInputs :: "DatasetType list \<Rightarrow> iostate \<Rightarrow> iostate" where
  "addInputs [] s = s"
| "addInputs (dsType # rest) (allDatasetTypes, inputs, outputs) =
     addInputs rest (allDatasetTypes(name dsType \<mapsto> dsType), insert (name dsType) inputs, outputs)"

fun addOutputs :: "DatasetType list \<Rightarrow> iostate \<Rightarrow> iostate" where
  "addOutputs [] s = s"
| "addOutputs (dsType # rest) (allDatasetTypes, inputs, outputs) =
     addOutputs rest (allDatasetTypes(name dsType \<mapsto> dsType), inputs, insert (name dsType) outputs)"

fun ioLoop :: "'cfg TaskDef list \<Rightarrow> iostate \<Rightarrow> error + iostate" where
  "ioLoop [] s = Inr s"
| "ioLoop (taskDef # rest) s =
     (case taskClass taskDef of
        None \<Rightarrow> Inl AttributeError
      | Some taksClass \<Rightarrow>
          (let taskInputs = getInputDatasetTypes taksClass (config taskDef);
               taskOutputs = getOutputDatasetTypes taksClass (config taskDef);
               s1 = (if truthy taskInputs then addInputs (dictValues taskInputs) s else s);
               s2 = (if truthy taskOutputs then addOutputs (dictValues taskOutputs) s1 else s1)
           in ioLoop rest s2))"

text \<open>\<^verbatim>\<open>set(allDatasetTypes[name] for name in names)\<close>; a missing key raises.\<close>

definition lookupAll :: "(string \<rightharpoonup> DatasetType) \<Rightarrow> string set \<Rightarrow> error + DatasetType set" where
  "lookupAll allDatasetTypes names =
     (if \<forall>n\<in>names. allDatasetTypes n \<noteq> None
      then Inr ((\<lambda>n. the (allDatasetTypes n)) ` names)
      else Inl KeyError)"

definition buildIODatasets ::
  "'cfg TaskDef list \<Rightarrow> error + (DatasetType set \<times> DatasetType set)" where
  "buildIODatasets tasks =
     (case ioLoop tasks (Map.empty, {}, {}) of
        Inl e \<Rightarrow> Inl e
      | Inr (allDatasetTypes, inputs, outputs) \<Rightarrow>
          (let inputs' = inputs - outputs in
           case lookupAll allDatasetTypes inputs' of
             Inl e \<Rightarrow> Inl e
           | Inr inputs'' \<Rightarrow>
               (case lookupAll allDatasetTypes outputs of
                  Inl e \<Rightarrow> Inl e
                | Inr outputs'' \<Rightarrow> Inr (inputs'', outputs''))))"

subsection \<open>\<^verbatim>\<open>_makeGraph\<close> and \<^verbatim>\<open>makeGraph\<close>\<close>

definition priv_makeGraph ::
  "('cfg, 'reg) GraphBuilder \<Rightarrow> ref list \<Rightarrow> DatasetType set \<Rightarrow> DatasetType set
     \<Rightarrow> QuantumGraph option" where
  "priv_makeGraph self tasks inputs outputs = (let graph = None in graph)"

text \<open>The list comprehension \<^verbatim>\<open>[self._loadTaskClass(taskDef) for taskDef in pipeline]\<close>.\<close>

fun loadAll ::
  "('cfg, 'reg) GraphBuilder \<Rightarrow> 'cfg heap \<Rightarrow> ref list \<Rightarrow> (error + ref list) \<times> 'cfg heap" where
  "loadAll self h [] = (Inr [], h)"
| "loadAll self h (taskDef # rest) =
     (case priv_loadTaskClass self h taskDef of
        (Inl e, h') \<Rightarrow> (Inl e, h')
      | (Inr t, h') \<Rightarrow>
          (case loadAll self h' rest of
             (Inl e, h'') \<Rightarrow> (Inl e, h'')
           | (Inr ts, h'') \<Rightarrow> (Inr (t # ts), h'')))"

definition makeGraph ::
  "('cfg, 'reg) GraphBuilder \<Rightarrow> 'cfg heap \<Rightarrow> ref list
     \<Rightarrow> (error + QuantumGraph option) \<times> 'cfg heap" where
  "makeGraph self h pipeline =
     (case loadAll self h pipeline of
        (Inl e, h') \<Rightarrow> (Inl e, h')
      | (Inr taskList, h') \<Rightarrow>
          (case buildIODatasets (map (\<lambda>r. h' ! r) taskList) of
             Inl e \<Rightarrow> (Inl e, h')
           | Inr (inputs, outputs) \<Rightarrow>
               (Inr (priv_makeGraph self taskList inputs outputs), h')))"

section \<open>Test fixtures (test\_pipeTools.py)\<close>

text \<open>
  The fields of an input or output dataset configuration that \<^verbatim>\<open>makeDatasetType\<close> reads.
\<close>

record DatasetConfig =
  dsName :: string
  dsUnits :: "string list"

definition makeDatasetType :: "DatasetConfig \<Rightarrow> DatasetType" where
  "makeDatasetType dsConfig = \<lparr>name = dsName dsConfig, units = dsUnits dsConfig\<rparr>"

record ExampleSuperTaskConfig =
  input1 :: DatasetConfig
  input2 :: DatasetConfig
  output1 :: DatasetConfig
  output2 :: DatasetConfig

text \<open>An argument of \<^verbatim>\<open>_makeConfig\<close>: a string, or a non-empty tuple of strings.\<close>

datatype names = Str string | Tup string "string list"

text \<open>
  \<^verbatim>\<open>_makeConfig\<close>. The freshly constructed \<^verbatim>\<open>ExampleSuperTaskConfig()\<close>, whose field
  defaults are declared outside this repository, is the parameter \<open>fresh\<close>.
\<close>

definition makeConfig :: "ExampleSuperTaskConfig \<Rightarrow> names \<Rightarrow> names \<Rightarrow> ExampleSuperTaskConfig" where
  "makeConfig fresh inputName outputName =
     (let config = fresh;
          config = (case inputName of
                      Tup n0 ns \<Rightarrow>
                        config\<lparr>input1 := (input1 config)\<lparr>dsName := n0\<rparr>,
                               input2 := (input2 config)\<lparr>dsName := (if ns \<noteq> [] then hd ns else [])\<rparr>\<rparr>
                    | Str n \<Rightarrow> config\<lparr>input1 := (input1 config)\<lparr>dsName := n\<rparr>\<rparr>);
          config = (case outputName of
                      Tup n0 ns \<Rightarrow>
                        config\<lparr>output1 := (output1 config)\<lparr>dsName := n0\<rparr>,
                               output2 := (output2 config)\<lparr>dsName := (if ns \<noteq> [] then hd ns else [])\<rparr>\<rparr>
                    | Str n \<Rightarrow> config\<lparr>output1 := (output1 config)\<lparr>dsName := n\<rparr>\<rparr>)
      in config)"

definition ExampleSuperTask :: "ExampleSuperTaskConfig TaskClass" where
  "ExampleSuperTask =
     \<lparr>getInputDatasetTypes = (\<lambda>config.
         Some ([(''input1'', makeDatasetType (input1 config))] @
               (if dsName (input2 config) \<noteq> [] then [(''input2'', makeDatasetType (input2 config))]
                else []))),
      getOutputDatasetTypes = (\<lambda>config.
         Some ([(''output1'', makeDatasetType (output1 config))] @
               (if dsName (output2 config) \<noteq> [] then [(''output2'', makeDatasetType (output2 config))]
                else [])))\<rparr>"

text \<open>
  \<^verbatim>\<open>_makePipeline\<close>. A task tuple has three or four items; the optional fourth, the task
  class, may itself be \<^verbatim>\<open>None\<close>.
\<close>

type_synonym taskTuple =
  "names \<times> names \<times> string \<times> ExampleSuperTaskConfig TaskClass option option"

fun makePipeline ::
  "ExampleSuperTaskConfig \<Rightarrow> taskTuple list \<Rightarrow> ExampleSuperTaskConfig TaskDef list" where
  "makePipeline fresh [] = []"
| "makePipeline fresh ((inputs, outputs, lbl, fourth) # tasks) =
     (let klass = (case fourth of Some k \<Rightarrow> k | None \<Rightarrow> Some ExampleSuperTask);
          config = makeConfig fresh inputs outputs
      in \<lparr>taskName = ''ExampleSuperTask'', config = config, taskClass = klass, label = lbl\<rparr>
         # makePipeline fresh tasks)"

definition emptyDatasetConfig :: DatasetConfig where
  "emptyDatasetConfig = \<lparr>dsName = [], dsUnits = []\<rparr>"

definition emptyConfig :: ExampleSuperTaskConfig where
  "emptyConfig = \<lparr>input1 = emptyDatasetConfig, input2 = emptyDatasetConfig,
                  output1 = emptyDatasetConfig, output2 = emptyDatasetConfig\<rparr>"

section \<open>What a task declares\<close>

text \<open>
  The dataset types a task with a resolved class declares, in the order the loops of the
  code visit them, and the names among them.
\<close>

definition declInputs :: "'cfg TaskDef \<Rightarrow> DatasetType list" where
  "declInputs td = (case taskClass td of None \<Rightarrow> []
                    | Some c \<Rightarrow> dictValues (getInputDatasetTypes c (config td)))"

definition declOutputs :: "'cfg TaskDef \<Rightarrow> DatasetType list" where
  "declOutputs td = (case taskClass td of None \<Rightarrow> []
                    | Some c \<Rightarrow> dictValues (getOutputDatasetTypes c (config td)))"

definition inputNames :: "'cfg TaskDef list \<Rightarrow> string set" where
  "inputNames tasks = (\<Union>td\<in>set tasks. name ` set (declInputs td))"

definition outputNames :: "'cfg TaskDef list \<Rightarrow> string set" where
  "outputNames tasks = (\<Union>td\<in>set tasks. name ` set (declOutputs td))"

definition declarations :: "'cfg TaskDef list \<Rightarrow> DatasetType list" where
  "declarations tasks = concat (map (\<lambda>td. declInputs td @ declOutputs td) tasks)"

fun lastDeclared :: "DatasetType list \<Rightarrow> string \<Rightarrow> DatasetType option" where
  "lastDeclared [] n = None"
| "lastDeclared (d # ds) n =
     (case lastDeclared ds n of
        Some x \<Rightarrow> Some x
      | None \<Rightarrow> if name d = n then Some d else None)"

definition chosen :: "'cfg TaskDef list \<Rightarrow> string \<Rightarrow> DatasetType" where
  "chosen tasks n = the (lastDeclared (declarations tasks) n)"

section \<open>Ordering engine (pipeTools), modelled from the specification\<close>

text \<open>
  The module \<^verbatim>\<open>pipeTools\<close> with \<^verbatim>\<open>isPipelineOrdered\<close>, \<^verbatim>\<open>orderPipeline\<close> and their
  exceptions is not among the sources; only its tests are. The definitions of this
  section follow sections 4.1 to 4.3 of the specification. A task is identified by its
  label, as the specification says; the factory is the optional capability of
  section 4.1 (\<open>None\<close> when absent).
\<close>

text \<open>
  Modelled from the spec: task class resolution (section 4.1), missing from the sources.
  A task with a class is returned unchanged; otherwise the factory resolves the task
  name, and an absent or failing factory is a \<open>MissingTaskFactoryError\<close> naming the task's
  label.
\<close>

definition resolveTask :: "'cfg TaskFactory option \<Rightarrow> 'cfg TaskDef \<Rightarrow> error + 'cfg TaskDef" where
  "resolveTask factory taskDef =
     (case taskClass taskDef of
        Some c \<Rightarrow> Inr taskDef
      | None \<Rightarrow>
          (case factory of
             None \<Rightarrow> Inl (MissingTaskFactoryError (label taskDef))
           | Some f \<Rightarrow>
               (case loadTaskClass f (taskName taskDef) of
                  Inl e \<Rightarrow> Inl (MissingTaskFactoryError (label taskDef))
                | Inr (c, canonicalName) \<Rightarrow>
                    Inr (taskDef\<lparr>taskClass := Some c, taskName := canonicalName\<rparr>))))"

text \<open>
  Modelled from the spec: the precondition of section 4.2b, missing from the sources.
  Every task is resolved before the graph is built; the first task that cannot be
  resolved aborts the operation.
\<close>

fun resolveAll :: "'cfg TaskFactory option \<Rightarrow> 'cfg TaskDef list \<Rightarrow> error + 'cfg TaskDef list" where
  "resolveAll factory [] = Inr []"
| "resolveAll factory (taskDef # rest) =
     (case resolveTask factory taskDef of
        Inl e \<Rightarrow> Inl e
      | Inr t \<Rightarrow> (case resolveAll factory rest of Inl e \<Rightarrow> Inl e | Inr ts \<Rightarrow> Inr (t # ts)))"

text \<open>
  Modelled from the spec: the names of the input dataset types a task declares through
  its class (sections 4.2 and 6), in the order of the mapping.
\<close>

definition inputDatasetTypeNames :: "'cfg TaskDef \<Rightarrow> string list" where
  "inputDatasetTypeNames t = map name (declInputs t)"

text \<open>
  Modelled from the spec: the names of the output dataset types a task declares through
  its class (sections 4.2 and 6), in the order of the mapping.
\<close>

definition outputDatasetTypeNames :: "'cfg TaskDef \<Rightarrow> string list" where
  "outputDatasetTypeNames t = map name (declOutputs t)"

text \<open>
  Modelled from the spec: the table \<open>producer\<close> from dataset-type names to task labels and
  the duplicate-producer rule (section 4.2), missing from the sources. The output names
  of one task are entered; a name that already has a producer with another label is a
  \<open>DuplicateOutputError\<close> naming the dataset-type name and both labels.
\<close>

fun addProducers ::
  "string list \<Rightarrow> string \<Rightarrow> (string \<rightharpoonup> string) \<Rightarrow> error + (string \<rightharpoonup> string)" where
  "addProducers [] T producer = Inr producer"
| "addProducers (N # rest) T producer =
     (case producer N of
        None \<Rightarrow> addProducers rest T (producer(N \<mapsto> T))
      | Some P \<Rightarrow> if P \<noteq> T then Inl (DuplicateOutputError N P T) else addProducers rest T producer)"

text \<open>
  Modelled from the spec: the first pass of section 4.2 over all tasks, which fills the
  table \<open>producer\<close> with the outputs of every task before any edge is built and stops at
  the first duplicate producer.
\<close>

fun collectProducers ::
  "'cfg TaskDef list \<Rightarrow> (string \<rightharpoonup> string) \<Rightarrow> error + (string \<rightharpoonup> string)" where
  "collectProducers [] producer = Inr producer"
| "collectProducers (t # rest) producer =
     (case addProducers (outputDatasetTypeNames t) (label t) producer of
        Inl e \<Rightarrow> Inl e
      | Inr producer' \<Rightarrow> collectProducers rest producer')"

text \<open>
  Modelled from the spec: the edges of one task (section 4.2), missing from the sources.
  For a task \<open>T\<close> and each of its input names \<open>N\<close>, if \<open>producer[N]\<close> exists and differs from
  \<open>T\<close>, the edge from \<open>producer[N]\<close> to \<open>T\<close> is added. The edges form a set, kept as a list
  without repetition.
\<close>

type_synonym edge = "string \<times> string"

fun taskEdges :: "(string \<rightharpoonup> string) \<Rightarrow> string \<Rightarrow> string list \<Rightarrow> edge list \<Rightarrow> edge list" where
  "taskEdges producer T [] edges = edges"
| "taskEdges producer T (N # rest) edges =
     (case producer N of
        None \<Rightarrow> taskEdges producer T rest edges
      | Some P \<Rightarrow> if P \<noteq> T then taskEdges producer T rest (List.insert (P, T) edges)
                  else taskEdges producer T rest edges)"

text \<open>
  Modelled from the spec: the second pass of section 4.2, which adds the edges of every
  task in pipeline order.
\<close>

fun buildEdges :: "(string \<rightharpoonup> string) \<Rightarrow> 'cfg TaskDef list \<Rightarrow> edge list \<Rightarrow> edge list" where
  "buildEdges producer [] edges = edges"
| "buildEdges producer (t # rest) edges =
     buildEdges producer rest (taskEdges producer (label t) (inputDatasetTypeNames t) edges)"

text \<open>
  Modelled from the spec: graph construction with its validation (sections 4.2 and
  4.2b), shared by both entry points: resolve every class, collect the producers,
  then build the edges.
\<close>

definition buildGraph :: "'cfg TaskFactory option \<Rightarrow> 'cfg TaskDef list \<Rightarrow> error + edge list" where
  "buildGraph factory pipeline =
     (case resolveAll factory pipeline of
        Inl e \<Rightarrow> Inl e
      | Inr tasks \<Rightarrow>
          (case collectProducers tasks Map.empty of
             Inl e \<Rightarrow> Inl e
           | Inr producer \<Rightarrow> Inr (buildEdges producer tasks [])))"

text \<open>
  Modelled from the spec: the in-degree of a task, computed from the edge set
  (section 4.3).
\<close>

definition inDegree :: "edge list \<Rightarrow> string \<Rightarrow> nat" where
  "inDegree edges T = length (filter (\<lambda>e. snd e = T) edges)"

text \<open>
  Modelled from the spec: the successors of a task in the edge set (section 4.3).
\<close>

definition successors :: "edge list \<Rightarrow> string \<Rightarrow> string list" where
  "successors edges T = map snd (filter (\<lambda>e. fst e = T) edges)"

text \<open>
  Modelled from the spec: the decrement of the in-degree of each successor of the task
  just emitted (section 4.3).
\<close>

fun decrement :: "string list \<Rightarrow> (string \<Rightarrow> nat) \<Rightarrow> (string \<Rightarrow> nat)" where
  "decrement [] deg = deg"
| "decrement (S # rest) deg = decrement rest (deg(S := deg S - 1))"

text \<open>
  Modelled from the spec: the Kahn-style ordering of section 4.3, missing from the
  sources. \<open>remaining\<close> holds the tasks not yet emitted, in the original order, so its
  first task of in-degree zero is the one of smallest original index. It is emitted, the
  in-degree of its successors is decremented, and the loop repeats until all tasks are
  emitted; when tasks remain and none has in-degree zero, the result is
  \<open>PipelineDataCycleError\<close>.
\<close>

function kahn ::
  "edge list \<Rightarrow> (string \<Rightarrow> nat) \<Rightarrow> 'cfg TaskDef list \<Rightarrow> 'cfg TaskDef list
     \<Rightarrow> error + 'cfg TaskDef list" where
  "kahn edges deg remaining emitted =
     (if remaining = [] then Inr emitted
      else case find (\<lambda>t. deg (label t) = 0) remaining of
             None \<Rightarrow> Inl PipelineDataCycleError
           | Some t \<Rightarrow>
               kahn edges (decrement (successors edges (label t)) deg)
                 (filter (\<lambda>u. label u \<noteq> label t) remaining) (emitted @ [t]))"
  by pat_completeness auto
termination
proof (relation "measure (\<lambda>(edges, deg, remaining, emitted). length remaining)")
  show "wf (measure (\<lambda>(edges, deg, remaining, emitted). length remaining))" by simp
next
  fix edges :: "edge list" and deg :: "string \<Rightarrow> nat"
    and remaining emitted :: "'cfg TaskDef list" and t
  assume "find (\<lambda>t. deg (label t) = 0) remaining = Some t"
  then have "t \<in> set remaining" by (auto simp: find_Some_iff)
  then have "length (filter (\<lambda>u. label u \<noteq> label t) remaining) < length remaining"
    by (intro length_filter_less[of t]) auto
  then show "((edges, decrement (successors edges (label t)) deg,
               filter (\<lambda>u. label u \<noteq> label t) remaining, emitted @ [t]),
              (edges, deg, remaining, emitted))
             \<in> measure (\<lambda>(edges, deg, remaining, emitted). length remaining)"
    by simp
qed

declare kahn.simps [simp del]

text \<open>
  Modelled from the spec: \<^verbatim>\<open>orderPipeline\<close> (section 4.3), missing from the sources. It
  returns a new pipeline of the caller's tasks in the order the loop emits them, or one
  of the three errors.
\<close>

definition orderPipeline ::
  "'cfg TaskFactory option \<Rightarrow> 'cfg TaskDef list \<Rightarrow> error + 'cfg TaskDef list" where
  "orderPipeline factory pipeline =
     (case buildGraph factory pipeline of
        Inl e \<Rightarrow> Inl e
      | Inr edges \<Rightarrow> kahn edges (inDegree edges) pipeline [])"

text \<open>
  Modelled from the spec: the original index of a task, given by its label, in the
  pipeline (section 4.3); the length of the pipeline when no task has the label.
\<close>

fun indexOf :: "string \<Rightarrow> 'cfg TaskDef list \<Rightarrow> nat" where
  "indexOf l [] = 0"
| "indexOf l (t # ts) = (if label t = l then 0 else Suc (indexOf l ts))"

text \<open>
  Modelled from the spec: \<^verbatim>\<open>isPipelineOrdered\<close> (section 4.3), missing from the sources.
  It performs the same graph construction and validation, does not reorder, and is true
  iff every producer precedes its consumers in the pipeline as given.
\<close>

definition isPipelineOrdered :: "'cfg TaskFactory option \<Rightarrow> 'cfg TaskDef list \<Rightarrow> error + bool" where
  "isPipelineOrdered factory pipeline =
     (case buildGraph factory pipeline of
        Inl e \<Rightarrow> Inl e
      | Inr edges \<Rightarrow>
          Inr (list_all (\<lambda>e. indexOf (fst e) pipeline < indexOf (snd e) pipeline) edges))"

subsection \<open>Notions the properties are stated with\<close>

text \<open>
  The dependency edges of a list of resolved tasks, from the declarations alone: some
  output name of the producer is an input name of the consumer, and the two are
  different tasks (section 4.2 adds an edge only when \<open>producer[N]\<close> differs from the
  consumer). A pipeline is duplicate-free when no two tasks declare a common output name.
\<close>

definition dependencyEdges :: "'cfg TaskDef list \<Rightarrow> edge set" where
  "dependencyEdges tasks =
     {(label p, label c) | p c. p \<in> set tasks \<and> c \<in> set tasks \<and> label p \<noteq> label c
        \<and> set (outputDatasetTypeNames p) \<inter> set (inputDatasetTypeNames c) \<noteq> {}}"

definition duplicateFree :: "'cfg TaskDef list \<Rightarrow> bool" where
  "duplicateFree tasks =
     (\<forall>p\<in>set tasks. \<forall>c\<in>set tasks. label p \<noteq> label c
        \<longrightarrow> set (outputDatasetTypeNames p) \<inter> set (outputDatasetTypeNames c) = {})"

text \<open>
  The tasks of the pipeline not yet emitted, in the original order; a task is ready when
  no edge leads to it from a task that remains; its dependencies are satisfied when every
  producer it depends on has been emitted.
\<close>

definition notYetEmitted :: "'cfg TaskDef list \<Rightarrow> 'cfg TaskDef list \<Rightarrow> 'cfg TaskDef list" where
  "notYetEmitted emitted pipeline = filter (\<lambda>u. label u \<notin> label ` set emitted) pipeline"

definition ready :: "edge list \<Rightarrow> 'cfg TaskDef list \<Rightarrow> 'cfg TaskDef \<Rightarrow> bool" where
  "ready edges remaining u = (\<forall>e\<in>set edges. snd e = label u \<longrightarrow> fst e \<notin> label ` set remaining)"

definition satisfied :: "'cfg TaskDef list \<Rightarrow> 'cfg TaskDef list \<Rightarrow> 'cfg TaskDef \<Rightarrow> bool" where
  "satisfied tasks emitted u =
     (\<forall>e\<in>dependencyEdges tasks. snd e = label u \<longrightarrow> fst e \<in> label ` set emitted)"

text \<open>The number of edges into a task from the tasks of a set: what the counters hold.\<close>

definition cnt :: "edge list \<Rightarrow> string set \<Rightarrow> string \<Rightarrow> nat" where
  "cnt edges R T = length (filter (\<lambda>e. snd e = T \<and> fst e \<in> R) edges)"

section \<open>Concrete inputs\<close>

subsection \<open>Pipelines used as concrete inputs\<close>

definition twoTasks :: "ExampleSuperTaskConfig TaskDef list" where
  "twoTasks = makePipeline emptyConfig
     [(Str ''A'', Str ''B'', ''task1'', None), (Str ''B'', Str ''C'', ''task2'', None)]"

definition visitConfig :: ExampleSuperTaskConfig where
  "visitConfig = emptyConfig\<lparr>output1 := \<lparr>dsName = [], dsUnits = [''visit'']\<rparr>\<rparr>"

definition twoProducers :: "ExampleSuperTaskConfig TaskDef list" where
  "twoProducers =
     makePipeline emptyConfig
       [(Str ''A'', Str ''B'', ''task1'', None), (Str ''B'', Str ''C'', ''task2'', None)]
     @ makePipeline visitConfig [(Str ''A'', Str ''C'', ''task3'', None)]"

definition unresolvedTask :: "ExampleSuperTaskConfig TaskDef list" where
  "unresolvedTask = makePipeline emptyConfig [(Str ''A'', Str ''B'', ''task1'', Some None)]"

definition failingFactory :: "ExampleSuperTaskConfig TaskFactory" where
  "failingFactory = \<lparr>loadTaskClass = (\<lambda>n. Inl (ImportError n))\<rparr>"

definition exampleFactory :: "ExampleSuperTaskConfig TaskFactory" where
  "exampleFactory = \<lparr>loadTaskClass = (\<lambda>n. Inr (ExampleSuperTask, ''test_pipeTools.'' @ n))\<rparr>"

definition builder :: "ExampleSuperTaskConfig TaskFactory option \<Rightarrow> (ExampleSuperTaskConfig, unit) GraphBuilder" where
  "builder f = \<lparr>taskFactory = f, registry = (), userQuery = None\<rparr>"

text \<open>The pipelines of the tests of \<^verbatim>\<open>orderPipeline\<close> and \<^verbatim>\<open>isPipelineOrdered\<close>.\<close>

definition diamond :: "ExampleSuperTaskConfig TaskDef list" where
  "diamond = makePipeline emptyConfig
     [(Str ''A'', Tup ''B'' [''C''], ''task1'', None),
      (Str ''B'', Str ''D'', ''task2'', None),
      (Str ''C'', Str ''E'', ''task3'', None),
      (Tup ''D'' [''E''], Str ''F'', ''task4'', None)]"

definition diamondSwapped :: "ExampleSuperTaskConfig TaskDef list" where
  "diamondSwapped = makePipeline emptyConfig
     [(Str ''A'', Tup ''B'' [''C''], ''task1'', None),
      (Str ''C'', Str ''E'', ''task3'', None),
      (Str ''B'', Str ''D'', ''task2'', None),
      (Tup ''D'' [''E''], Str ''F'', ''task4'', None)]"

definition reversedDiamond :: "ExampleSuperTaskConfig TaskDef list" where
  "reversedDiamond = makePipeline emptyConfig
     [(Tup ''D'' [''E''], Str ''F'', ''task4'', None),
      (Str ''B'', Str ''D'', ''task2'', None),
      (Str ''C'', Str ''E'', ''task3'', None),
      (Str ''A'', Tup ''B'' [''C''], ''task1'', None)]"

definition reversedDiamondSwapped :: "ExampleSuperTaskConfig TaskDef list" where
  "reversedDiamondSwapped = makePipeline emptyConfig
     [(Tup ''D'' [''E''], Str ''F'', ''task4'', None),
      (Str ''C'', Str ''E'', ''task3'', None),
      (Str ''B'', Str ''D'', ''task2'', None),
      (Str ''A'', Tup ''B'' [''C''], ''task1'', None)]"

definition duplicatePipeline :: "ExampleSuperTaskConfig TaskDef list" where
  "duplicatePipeline = makePipeline emptyConfig
     [(Str ''A'', Str ''B'', ''task1'', None),
      (Str ''B'', Str ''C'', ''task2'', None),
      (Str ''A'', Str ''C'', ''task3'', None)]"

definition cyclePipeline :: "ExampleSuperTaskConfig TaskDef list" where
  "cyclePipeline = makePipeline emptyConfig
     [(Str ''A'', Str ''B'', ''task1'', None),
      (Str ''B'', Str ''C'', ''task2'', None),
      (Str ''C'', Str ''D'', ''task3'', None),
      (Str ''D'', Str ''A'', ''task4'', None)]"

section \<open>Properties of GraphBuilder\<close>

subsection \<open>Evaluation on concrete inputs\<close>

lemmas fixture_defs = emptyConfig_def emptyDatasetConfig_def
  makeConfig_def ExampleSuperTask_def makeDatasetType_def

lemmas run_defs = buildIODatasets_def truthy_def dictValues_def lookupAll_def Let_def insert_Diff_if

subsection \<open>The lookup table and the name sets after the loop\<close>

lemma lastDeclared_append:
  "lastDeclared (xs @ ys) n = (case lastDeclared ys n of None \<Rightarrow> lastDeclared xs n | Some d \<Rightarrow> Some d)"
  by (induction xs) (auto split: option.splits)

lemma lastDeclared_name: "lastDeclared ds n = Some d \<Longrightarrow> name d = n \<and> d \<in> set ds"
  by (induction ds) (auto split: option.splits if_splits)

lemma lastDeclared_None: "lastDeclared ds n = None \<longleftrightarrow> n \<notin> name ` set ds"
  by (induction ds) (auto split: option.splits)

lemma truthy_skip_in:
  "(if truthy d then addInputs (dictValues d) s else s) = addInputs (dictValues d) s"
  by (auto simp: truthy_def dictValues_def split: option.splits)

lemma truthy_skip_out:
  "(if truthy d then addOutputs (dictValues d) s else s) = addOutputs (dictValues d) s"
  by (auto simp: truthy_def dictValues_def split: option.splits)

lemma addInputs_eq:
  "addInputs ds (m, i, ou) =
     ((\<lambda>n. case lastDeclared ds n of None \<Rightarrow> m n | Some d \<Rightarrow> Some d), i \<union> name ` set ds, ou)"
proof (induction ds arbitrary: m i)
  case Nil
  show ?case by simp
next
  case (Cons d ds)
  have "(\<lambda>n. case lastDeclared ds n of None \<Rightarrow> (m(name d \<mapsto> d)) n | Some x \<Rightarrow> Some x)
        = (\<lambda>n. case lastDeclared (d # ds) n of None \<Rightarrow> m n | Some x \<Rightarrow> Some x)"
    by (rule ext) (simp split: option.splits)
  with Cons show ?case by auto
qed

lemma addOutputs_eq:
  "addOutputs ds (m, i, ou) =
     ((\<lambda>n. case lastDeclared ds n of None \<Rightarrow> m n | Some d \<Rightarrow> Some d), i, ou \<union> name ` set ds)"
proof (induction ds arbitrary: m ou)
  case Nil
  show ?case by simp
next
  case (Cons d ds)
  have "(\<lambda>n. case lastDeclared ds n of None \<Rightarrow> (m(name d \<mapsto> d)) n | Some x \<Rightarrow> Some x)
        = (\<lambda>n. case lastDeclared (d # ds) n of None \<Rightarrow> m n | Some x \<Rightarrow> Some x)"
    by (rule ext) (simp split: option.splits)
  with Cons show ?case by auto
qed

lemma ioLoop_Cons:
  "taskClass td = Some c \<Longrightarrow>
   ioLoop (td # tasks) s = ioLoop tasks (addOutputs (declOutputs td) (addInputs (declInputs td) s))"
  by (simp add: declInputs_def declOutputs_def truthy_skip_in truthy_skip_out Let_def)

lemma ioLoop_eq:
  "\<forall>td\<in>set tasks. taskClass td \<noteq> None \<Longrightarrow>
   ioLoop tasks (m, i, ou) =
     Inr ((\<lambda>n. case lastDeclared (declarations tasks) n of None \<Rightarrow> m n | Some d \<Rightarrow> Some d),
          i \<union> inputNames tasks, ou \<union> outputNames tasks)"
proof (induction tasks arbitrary: m i ou)
  case Nil
  show ?case by (simp add: declarations_def inputNames_def outputNames_def)
next
  case (Cons td tasks)
  from Cons.prems obtain c where c: "taskClass td = Some c" by auto
  have rest: "\<forall>td\<in>set tasks. taskClass td \<noteq> None" using Cons.prems by simp
  have tbl: "(\<lambda>n. case lastDeclared (declarations tasks) n of
                None \<Rightarrow> (case lastDeclared (declOutputs td) n of
                           None \<Rightarrow> (case lastDeclared (declInputs td) n of None \<Rightarrow> m n | Some x \<Rightarrow> Some x)
                         | Some x \<Rightarrow> Some x)
              | Some x \<Rightarrow> Some x)
           = (\<lambda>n. case lastDeclared (declarations (td # tasks)) n of None \<Rightarrow> m n | Some x \<Rightarrow> Some x)"
    by (rule ext) (simp add: declarations_def lastDeclared_append split: option.splits)
  have names: "i \<union> name ` set (declInputs td) \<union> inputNames tasks = i \<union> inputNames (td # tasks)"
    "ou \<union> name ` set (declOutputs td) \<union> outputNames tasks = ou \<union> outputNames (td # tasks)"
    by (simp_all add: inputNames_def outputNames_def Un_assoc)
  show ?case
    unfolding ioLoop_Cons[OF c] addInputs_eq addOutputs_eq Cons.IH[OF rest] tbl names ..
qed

lemma ioLoop_unresolved:
  "\<exists>td\<in>set tasks. taskClass td = None \<Longrightarrow> ioLoop tasks s = Inl AttributeError"
proof (induction tasks arbitrary: s)
  case Nil
  then show ?case by simp
next
  case (Cons td tasks)
  then show ?case by (cases "taskClass td") (auto simp: Let_def)
qed

lemma names_declarations:
  "name ` set (declarations tasks) = inputNames tasks \<union> outputNames tasks"
  by (auto simp: declarations_def inputNames_def outputNames_def)

lemma buildIODatasets_eq:
  assumes "\<forall>td\<in>set tasks. taskClass td \<noteq> None"
  shows "buildIODatasets tasks =
           Inr (chosen tasks ` (inputNames tasks - outputNames tasks),
                chosen tasks ` outputNames tasks)"
proof -
  let ?D = "declarations tasks"
  have dom: "\<And>n. n \<in> inputNames tasks \<union> outputNames tasks \<Longrightarrow> lastDeclared ?D n \<noteq> None"
    using names_declarations[of tasks] by (simp add: lastDeclared_None)
  have id: "(\<lambda>n. case lastDeclared ?D n of None \<Rightarrow> None | Some d \<Rightarrow> Some d) = lastDeclared ?D"
    by (rule ext) (simp split: option.splits)
  have ch: "(\<lambda>n. the (lastDeclared ?D n)) = chosen tasks"
    by (rule ext) (simp add: chosen_def)
  have loop: "ioLoop tasks (Map.empty, {}, {}) = Inr (lastDeclared ?D, inputNames tasks, outputNames tasks)"
    using ioLoop_eq[OF assms, of Map.empty "{}" "{}"] by (simp add: id)
  have l1: "lookupAll (lastDeclared ?D) (inputNames tasks - outputNames tasks)
              = Inr (chosen tasks ` (inputNames tasks - outputNames tasks))"
    unfolding ch[symmetric] using dom by (auto simp: lookupAll_def)
  have l2: "lookupAll (lastDeclared ?D) (outputNames tasks) = Inr (chosen tasks ` outputNames tasks)"
    unfolding ch[symmetric] using dom by (auto simp: lookupAll_def)
  show ?thesis
    unfolding buildIODatasets_def by (simp add: loop l1 l2)
qed

lemma chosen_props:
  assumes "n \<in> inputNames tasks \<union> outputNames tasks"
  shows "name (chosen tasks n) = n" and "chosen tasks n \<in> set (declarations tasks)"
proof -
  from assms obtain d where d: "lastDeclared (declarations tasks) n = Some d"
    using names_declarations[of tasks] lastDeclared_None[of "declarations tasks" n] by auto
  from lastDeclared_name[OF d] show "name (chosen tasks n) = n"
    and "chosen tasks n \<in> set (declarations tasks)"
    by (simp_all add: chosen_def d)
qed

lemma name_image_chosen:
  "S \<subseteq> inputNames tasks \<union> outputNames tasks \<Longrightarrow> name ` chosen tasks ` S = S"
  using chosen_props(1)[of _ tasks] by (force simp: image_image)

text \<open>
  Claim C6. For a task list whose classes are all resolved, \<open>buildIODatasets\<close> returns a
  pair of sets of declared dataset types with one member per name: the names of the
  outputs are exactly the names declared as an output by some task, the names of the
  inputs are exactly the names declared as an input by some task and as an output by
  none, and the two name sets are disjoint. Where dataset types are identified by their
  name, the outputs are all declared dataset types with an output name and the inputs all
  declared dataset types with a name that is an input name and no output name.
\<close>

theorem buildIODatasets_partition:
  assumes "\<forall>td\<in>set tasks. taskClass td \<noteq> None"
  shows "\<exists>inputs outputs. buildIODatasets tasks = Inr (inputs, outputs)
     \<and> name ` outputs = outputNames tasks
     \<and> name ` inputs = inputNames tasks - outputNames tasks
     \<and> name ` inputs \<inter> name ` outputs = {}
     \<and> inputs \<union> outputs \<subseteq> set (declarations tasks)
     \<and> inj_on name (inputs \<union> outputs)
     \<and> (inj_on name (set (declarations tasks)) \<longrightarrow>
           outputs = {d \<in> set (declarations tasks). name d \<in> outputNames tasks} \<and>
           inputs = {d \<in> set (declarations tasks).
                       name d \<in> inputNames tasks \<and> name d \<notin> outputNames tasks})"
proof -
  let ?I = "inputNames tasks - outputNames tasks" and ?O = "outputNames tasks"
  let ?ins = "chosen tasks ` ?I" and ?outs = "chosen tasks ` ?O"
  have n1: "name ` ?outs = ?O" by (rule name_image_chosen) auto
  have n2: "name ` ?ins = ?I" by (rule name_image_chosen) auto
  have sub: "?ins \<union> ?outs \<subseteq> set (declarations tasks)"
    using chosen_props(2)[of _ tasks] by auto
  have inj: "inj_on name (?ins \<union> ?outs)"
  proof (rule inj_onI)
    fix x y assume "x \<in> ?ins \<union> ?outs" "y \<in> ?ins \<union> ?outs" "name x = name y"
    then obtain a b where a: "a \<in> inputNames tasks \<union> outputNames tasks" "x = chosen tasks a"
      and b: "b \<in> inputNames tasks \<union> outputNames tasks" "y = chosen tasks b"
      by auto
    with \<open>name x = name y\<close> chosen_props(1)[OF a(1)] chosen_props(1)[OF b(1)]
    show "x = y" by simp
  qed
  have full: "inj_on name (set (declarations tasks)) \<longrightarrow>
              ?outs = {d \<in> set (declarations tasks). name d \<in> ?O} \<and>
              ?ins = {d \<in> set (declarations tasks). name d \<in> inputNames tasks \<and> name d \<notin> ?O}"
  proof
    assume ij: "inj_on name (set (declarations tasks))"
    have rt: "chosen tasks (name d) = d" if d: "d \<in> set (declarations tasks)" for d
    proof -
      have "name d \<in> inputNames tasks \<union> outputNames tasks"
        using d names_declarations[of tasks] by blast
      from chosen_props[OF this] d ij show ?thesis by (auto dest: inj_onD)
    qed
    have "?outs = {d \<in> set (declarations tasks). name d \<in> ?O}"
    proof (intro set_eqI iffI)
      fix d assume "d \<in> ?outs"
      then show "d \<in> {d \<in> set (declarations tasks). name d \<in> ?O}"
        using chosen_props[of _ tasks] by auto
    next
      fix d assume "d \<in> {d \<in> set (declarations tasks). name d \<in> ?O}"
      then show "d \<in> ?outs" using rt[of d] by (metis (mono_tags, lifting) image_eqI mem_Collect_eq)
    qed
    moreover have "?ins = {d \<in> set (declarations tasks). name d \<in> inputNames tasks \<and> name d \<notin> ?O}"
    proof (intro set_eqI iffI)
      fix d assume "d \<in> ?ins"
      then show "d \<in> {d \<in> set (declarations tasks). name d \<in> inputNames tasks \<and> name d \<notin> ?O}"
        using chosen_props[of _ tasks] by auto
    next
      fix d assume "d \<in> {d \<in> set (declarations tasks). name d \<in> inputNames tasks \<and> name d \<notin> ?O}"
      then have "d \<in> set (declarations tasks)" "name d \<in> ?I" by auto
      then show "d \<in> ?ins" using rt[of d] by (metis image_eqI)
    qed
    ultimately show "?outs = {d \<in> set (declarations tasks). name d \<in> ?O} \<and>
              ?ins = {d \<in> set (declarations tasks). name d \<in> inputNames tasks \<and> name d \<notin> ?O}"
      by simp
  qed
  have disj: "name ` ?ins \<inter> name ` ?outs = {}" unfolding n1 n2 by auto
  show ?thesis
    using buildIODatasets_eq[OF assms] n1 n2 disj sub inj full by blast
qed

theorem buildIODatasets_partition_witness:
  "buildIODatasets twoTasks =
     Inr ({\<lparr>name = ''A'', units = []\<rparr>}, {\<lparr>name = ''C'', units = []\<rparr>, \<lparr>name = ''B'', units = []\<rparr>})
   \<and> (\<exists>inputs outputs. buildIODatasets twoTasks = Inr (inputs, outputs)
     \<and> name ` outputs = outputNames twoTasks
     \<and> name ` inputs = inputNames twoTasks - outputNames twoTasks
     \<and> name ` inputs \<inter> name ` outputs = {}
     \<and> inputs \<union> outputs \<subseteq> set (declarations twoTasks)
     \<and> inj_on name (inputs \<union> outputs)
     \<and> (inj_on name (set (declarations twoTasks)) \<longrightarrow>
           outputs = {d \<in> set (declarations twoTasks). name d \<in> outputNames twoTasks} \<and>
           inputs = {d \<in> set (declarations twoTasks).
                       name d \<in> inputNames twoTasks \<and> name d \<notin> outputNames twoTasks}))"
proof (rule conjI)
  show "buildIODatasets twoTasks =
     Inr ({\<lparr>name = ''A'', units = []\<rparr>}, {\<lparr>name = ''C'', units = []\<rparr>, \<lparr>name = ''B'', units = []\<rparr>})"
    by (simp add: twoTasks_def run_defs fixture_defs)
  have resolved: "\<forall>td\<in>set twoTasks. taskClass td \<noteq> None"
    by (simp add: twoTasks_def)
  show "\<exists>inputs outputs. buildIODatasets twoTasks = Inr (inputs, outputs)
     \<and> name ` outputs = outputNames twoTasks
     \<and> name ` inputs = inputNames twoTasks - outputNames twoTasks
     \<and> name ` inputs \<inter> name ` outputs = {}
     \<and> inputs \<union> outputs \<subseteq> set (declarations twoTasks)
     \<and> inj_on name (inputs \<union> outputs)
     \<and> (inj_on name (set (declarations twoTasks)) \<longrightarrow>
           outputs = {d \<in> set (declarations twoTasks). name d \<in> outputNames twoTasks} \<and>
           inputs = {d \<in> set (declarations twoTasks).
                       name d \<in> inputNames twoTasks \<and> name d \<notin> outputNames twoTasks})"
    by (rule buildIODatasets_partition[OF resolved])
qed

lemma declarations_append:
  "declarations (xs @ ys) = declarations xs @ declarations ys"
  by (simp add: declarations_def)

lemma declarations_Cons:
  "declarations (t # ys) = (declInputs t @ declOutputs t) @ declarations ys"
  by (simp add: declarations_def)

lemma chosen_last_task:
  assumes "n \<in> name ` set (declInputs t @ declOutputs t)"
    and "n \<notin> name ` set (declarations post)"
  shows "lastDeclared (declInputs t @ declOutputs t) n = Some (chosen (pre @ t # post) n)"
proof -
  from assms(1) obtain x where x: "lastDeclared (declInputs t @ declOutputs t) n = Some x"
    using lastDeclared_None[of "declInputs t @ declOutputs t" n] by auto
  from assms(2) have p: "lastDeclared (declarations post) n = None"
    by (simp add: lastDeclared_None)
  have "lastDeclared (declarations (pre @ t # post)) n = Some x"
    by (simp only: declarations_append declarations_Cons lastDeclared_append[of "declarations pre"]
      lastDeclared_append[of "declInputs t @ declOutputs t" "declarations post"] p x
      option.simps)
  then show ?thesis by (simp add: chosen_def x)
qed

text \<open>
  Claim C7. On a task list whose classes are all resolved (tasks that declare the same
  output name included) \<open>buildIODatasets\<close> raises nothing; every declared output name has
  exactly one member in the outputs set; and the dataset type kept for a name is the one
  of the last task of the list that declares the name, the last of that task's
  declarations with that name (inputs are visited before outputs).
\<close>

theorem buildIODatasets_duplicates:
  assumes "\<forall>td\<in>set tasks. taskClass td \<noteq> None"
  shows "\<exists>inputs outputs. buildIODatasets tasks = Inr (inputs, outputs)
     \<and> (\<forall>n\<in>outputNames tasks. \<exists>!d. d \<in> outputs \<and> name d = n)
     \<and> (\<forall>pre t post d. tasks = pre @ t # post \<and> d \<in> inputs \<union> outputs
            \<and> name d \<in> name ` set (declInputs t @ declOutputs t)
            \<and> name d \<notin> name ` set (declarations post)
          \<longrightarrow> lastDeclared (declInputs t @ declOutputs t) (name d) = Some d)"
proof -
  let ?I = "inputNames tasks - outputNames tasks" and ?O = "outputNames tasks"
  let ?ins = "chosen tasks ` ?I" and ?outs = "chosen tasks ` ?O"
  have one: "\<exists>!d. d \<in> ?outs \<and> name d = n" if n: "n \<in> ?O" for n
  proof (rule ex1I[of _ "chosen tasks n"])
    show "chosen tasks n \<in> ?outs \<and> name (chosen tasks n) = n"
      using n chosen_props(1)[of n tasks] by simp
  next
    fix d assume d: "d \<in> ?outs \<and> name d = n"
    then obtain k where k: "k \<in> ?O" "d = chosen tasks k" by auto
    with chosen_props(1)[of k tasks] d show "d = chosen tasks n" by simp
  qed
  have lastw: "lastDeclared (declInputs t @ declOutputs t) (name d) = Some d"
    if t: "tasks = pre @ t # post" and d: "d \<in> ?ins \<union> ?outs"
      and here: "name d \<in> name ` set (declInputs t @ declOutputs t)"
      and later: "name d \<notin> name ` set (declarations post)"
    for pre t post d
  proof -
    from d obtain k where k: "k \<in> inputNames tasks \<union> outputNames tasks" "d = chosen tasks k"
      by auto
    from chosen_props(1)[OF k(1)] k(2) have "chosen tasks (name d) = d" by simp
    with chosen_last_task[OF here later, of pre] t show ?thesis by simp
  qed
  show ?thesis
  proof (intro exI conjI)
    show "buildIODatasets tasks = Inr (?ins, ?outs)"
      by (rule buildIODatasets_eq[OF assms])
    show "\<forall>n\<in>?O. \<exists>!d. d \<in> ?outs \<and> name d = n"
      by (intro ballI one)
    show "\<forall>pre t post d. tasks = pre @ t # post \<and> d \<in> ?ins \<union> ?outs
            \<and> name d \<in> name ` set (declInputs t @ declOutputs t)
            \<and> name d \<notin> name ` set (declarations post)
          \<longrightarrow> lastDeclared (declInputs t @ declOutputs t) (name d) = Some d"
      by (intro allI impI, elim conjE, rule lastw)
  qed
qed

theorem buildIODatasets_duplicates_witness:
  "buildIODatasets twoProducers =
     Inr ({\<lparr>name = ''A'', units = []\<rparr>},
          {\<lparr>name = ''C'', units = [''visit'']\<rparr>, \<lparr>name = ''B'', units = []\<rparr>})
   \<and> (\<exists>inputs outputs. buildIODatasets twoProducers = Inr (inputs, outputs)
     \<and> (\<forall>n\<in>outputNames twoProducers. \<exists>!d. d \<in> outputs \<and> name d = n)
     \<and> (\<forall>pre t post d. twoProducers = pre @ t # post \<and> d \<in> inputs \<union> outputs
            \<and> name d \<in> name ` set (declInputs t @ declOutputs t)
            \<and> name d \<notin> name ` set (declarations post)
          \<longrightarrow> lastDeclared (declInputs t @ declOutputs t) (name d) = Some d))"
proof (rule conjI)
  show "buildIODatasets twoProducers =
     Inr ({\<lparr>name = ''A'', units = []\<rparr>},
          {\<lparr>name = ''C'', units = [''visit'']\<rparr>, \<lparr>name = ''B'', units = []\<rparr>})"
    by (simp add: twoProducers_def visitConfig_def run_defs fixture_defs)
  have resolved: "\<forall>td\<in>set twoProducers. taskClass td \<noteq> None"
    by (simp add: twoProducers_def)
  show "\<exists>inputs outputs. buildIODatasets twoProducers = Inr (inputs, outputs)
     \<and> (\<forall>n\<in>outputNames twoProducers. \<exists>!d. d \<in> outputs \<and> name d = n)
     \<and> (\<forall>pre t post d. twoProducers = pre @ t # post \<and> d \<in> inputs \<union> outputs
            \<and> name d \<in> name ` set (declInputs t @ declOutputs t)
            \<and> name d \<notin> name ` set (declarations post)
          \<longrightarrow> lastDeclared (declInputs t @ declOutputs t) (name d) = Some d)"
    by (rule buildIODatasets_duplicates[OF resolved])
qed

subsection \<open>Class resolution and \<open>buildIODatasets\<close>\<close>

text \<open>
  Claim C8 as stated does not hold: \<open>buildIODatasets\<close> never consults the factory. For
  a task whose class is unset, \<^verbatim>\<open>_loadTaskClass\<close> with a failing factory raises the
  factory's error and with a working factory returns a resolved copy, while
  \<open>buildIODatasets\<close> raises an attribute error in both situations.
\<close>

theorem buildIODatasets_no_resolution_counterexample:
  "fst (priv_loadTaskClass (builder (Some failingFactory)) unresolvedTask 0)
     = Inl (ImportError ''ExampleSuperTask'')
   \<and> buildIODatasets unresolvedTask = Inl AttributeError
   \<and> fst (priv_loadTaskClass (builder (Some exampleFactory)) unresolvedTask 0) = Inr 1"
  by (simp add: priv_loadTaskClass_def builder_def failingFactory_def exampleFactory_def
      unresolvedTask_def buildIODatasets_def copy_copy_def set_taskClass_def set_taskName_def)

text \<open>
  Claim C8, amended. \<open>buildIODatasets\<close> does no class resolution: on a task list with a
  task whose class is unset it raises an attribute error. Resolution is the work of
  \<open>makeGraph\<close>, which calls \<^verbatim>\<open>_loadTaskClass\<close> on every task first, so a
  class-resolution failure surfaces from \<open>makeGraph\<close> before \<open>buildIODatasets\<close> runs.
\<close>

theorem buildIODatasets_unresolved:
  "((\<exists>td\<in>set tasks. taskClass td = None) \<longrightarrow> buildIODatasets tasks = Inl AttributeError)
   \<and> (fst (loadAll self h pipeline) = Inl e \<longrightarrow> fst (makeGraph self h pipeline) = Inl e)"
  by (auto simp: buildIODatasets_def ioLoop_unresolved makeGraph_def split: prod.splits sum.splits)

theorem buildIODatasets_unresolved_witness:
  "buildIODatasets unresolvedTask = Inl AttributeError
   \<and> fst (makeGraph (builder (Some failingFactory)) unresolvedTask [0]) = Inl (ImportError ''ExampleSuperTask'')"
proof -
  have u: "\<exists>td\<in>set unresolvedTask. taskClass td = None"
    by (simp add: unresolvedTask_def)
  have l: "fst (loadAll (builder (Some failingFactory)) unresolvedTask [0]) = Inl (ImportError ''ExampleSuperTask'')"
    by (simp add: priv_loadTaskClass_def builder_def failingFactory_def unresolvedTask_def)
  from buildIODatasets_unresolved[of unresolvedTask "builder (Some failingFactory)" unresolvedTask "[0]"
      "ImportError ''ExampleSuperTask''"] u l
  show ?thesis by blast
qed

subsection \<open>\<^verbatim>\<open>_loadTaskClass\<close> leaves the caller's object alone\<close>

text \<open>
  Claim C9. \<^verbatim>\<open>_loadTaskClass\<close> changes no object that existed before the call, the
  caller's TaskDef included. When the class is already set, the same reference is
  returned and the store is unchanged. When it is unset and the factory resolves it, the
  result is a reference to a new object, a copy of the caller's TaskDef with
  \<open>taskClass\<close> and \<open>taskName\<close> set to the factory's values and every other field shared.
\<close>

theorem loadTaskClass_frame:
  assumes "taskDef < length h" and "priv_loadTaskClass self h taskDef = (res, h')"
  shows "take (length h) h' = h \<and> h' ! taskDef = h ! taskDef
     \<and> (taskClass (h ! taskDef) \<noteq> None \<longrightarrow> res = Inr taskDef \<and> h' = h)
     \<and> (\<forall>factory tClass tName.
           taskClass (h ! taskDef) = None \<and> taskFactory self = Some factory
           \<and> loadTaskClass factory (taskName (h ! taskDef)) = Inr (tClass, tName)
         \<longrightarrow> res = Inr (length h) \<and> length h \<noteq> taskDef
             \<and> h' = h @ [(h ! taskDef)\<lparr>taskName := tName, taskClass := Some tClass\<rparr>])"
  using assms
  by (auto simp: priv_loadTaskClass_def copy_copy_def set_taskClass_def set_taskName_def
      nth_append split: if_splits option.splits sum.splits prod.splits)

theorem loadTaskClass_frame_witness:
  "priv_loadTaskClass (builder (Some exampleFactory)) unresolvedTask 0 =
     (Inr 1, unresolvedTask @
        [(unresolvedTask ! 0)\<lparr>taskName := ''test_pipeTools.ExampleSuperTask'',
                               taskClass := Some ExampleSuperTask\<rparr>])
   \<and> taskClass (unresolvedTask ! 0) = None
   \<and> taskName (unresolvedTask ! 0) = ''ExampleSuperTask''"
proof -
  let ?self = "builder (Some exampleFactory)"
  obtain res h' where r: "priv_loadTaskClass ?self unresolvedTask 0 = (res, h')"
    by (cases "priv_loadTaskClass ?self unresolvedTask 0")
  have len: "0 < length unresolvedTask" "length unresolvedTask = 1"
    by (simp_all add: unresolvedTask_def)
  have un: "taskClass (unresolvedTask ! 0) = None" "taskName (unresolvedTask ! 0) = ''ExampleSuperTask''"
    by (simp_all add: unresolvedTask_def)
  have f: "taskFactory ?self = Some exampleFactory"
    by (simp add: builder_def)
  have ld: "loadTaskClass exampleFactory (taskName (unresolvedTask ! 0))
              = Inr (ExampleSuperTask, ''test_pipeTools.ExampleSuperTask'')"
    by (simp add: exampleFactory_def un)
  from loadTaskClass_frame[OF len(1) r] un(1) f ld
  have "res = Inr (length unresolvedTask) \<and>
        h' = unresolvedTask @ [(unresolvedTask ! 0)\<lparr>taskName := ''test_pipeTools.ExampleSuperTask'',
                               taskClass := Some ExampleSuperTask\<rparr>]"
    by blast
  with r un len(2) show ?thesis by simp
qed

subsection \<open>\<open>makeGraph\<close> produces no graph\<close>

text \<open>
  Claim C10. Whenever class loading and the extraction of the dataset types succeed,
  \<open>makeGraph\<close> returns \<^verbatim>\<open>None\<close>; it never returns a graph.
\<close>

theorem makeGraph_returns_None:
  "(loadAll self h pipeline = (Inr taskList, h')
      \<and> buildIODatasets (map (\<lambda>r. h' ! r) taskList) = Inr io
    \<longrightarrow> makeGraph self h pipeline = (Inr None, h'))
   \<and> fst (makeGraph self h pipeline) \<noteq> Inr (Some g)"
  by (auto simp: makeGraph_def priv_makeGraph_def split: prod.splits sum.splits)

theorem makeGraph_returns_None_witness:
  "makeGraph (builder None) twoTasks [0, 1] = (Inr None, twoTasks)"
proof -
  have l: "loadAll (builder None) twoTasks [0, 1] = (Inr [0, 1], twoTasks)"
    by (simp add: priv_loadTaskClass_def twoTasks_def)
  have m: "map (\<lambda>r. twoTasks ! r) [0, 1] = twoTasks"
    by (simp add: twoTasks_def)
  have b: "buildIODatasets (map (\<lambda>r. twoTasks ! r) [0, 1]) =
      Inr ({\<lparr>name = ''A'', units = []\<rparr>}, {\<lparr>name = ''C'', units = []\<rparr>, \<lparr>name = ''B'', units = []\<rparr>})"
    unfolding m by (simp add: twoTasks_def run_defs fixture_defs)
  from makeGraph_returns_None[of "builder None" twoTasks "[0, 1]" "[0, 1]" twoTasks] l b
  show ?thesis by blast
qed

section \<open>Properties of the ordering engine\<close>

subsection \<open>Resolution, producers and edges\<close>

lemma resolveTask_label:
  "resolveTask f t = Inr t' \<Longrightarrow> label t' = label t \<and> taskClass t' \<noteq> None"
  by (auto simp: resolveTask_def split: option.splits sum.splits prod.splits)

lemma resolveAll_labels:
  "resolveAll f p = Inr ts \<Longrightarrow> map label ts = map label p \<and> (\<forall>t\<in>set ts. taskClass t \<noteq> None)"
proof (induction p arbitrary: ts)
  case Nil
  then show ?case by simp
next
  case (Cons a p)
  then show ?case
    by (auto split: sum.splits dest!: resolveTask_label)
qed

lemma resolveAll_resolved:
  "\<forall>t\<in>set p. taskClass t \<noteq> None \<Longrightarrow> resolveAll f p = Inr p"
  by (induction p) (auto simp: resolveTask_def)

lemma addProducers_Inr:
  "addProducers ns T m = Inr m' \<Longrightarrow>
     m' n = Some P \<longleftrightarrow> (m n = Some P \<or> (n \<in> set ns \<and> T = P))"
proof (induction ns arbitrary: m)
  case Nil
  then show ?case by auto
next
  case (Cons N rest)
  show ?case
  proof (cases "m N")
    case None
    with Cons.prems have "addProducers rest T (m(N \<mapsto> T)) = Inr m'" by simp
    from Cons.IH[OF this] None show ?thesis by auto
  next
    case (Some P0)
    with Cons.prems have eq: "P0 = T" and "addProducers rest T m = Inr m'"
      by (auto split: if_splits)
    from Cons.IH[OF this(2)] Some eq show ?thesis by auto
  qed
qed

lemma addProducers_Inl:
  "addProducers ns T m = Inl e \<Longrightarrow> \<exists>N P. e = DuplicateOutputError N P T"
  by (induction ns arbitrary: m) (auto split: option.splits if_splits)

lemma addProducers_ok:
  "\<forall>n\<in>set ns. \<forall>P. m n = Some P \<longrightarrow> P = T \<Longrightarrow> \<exists>m'. addProducers ns T m = Inr m'"
proof (induction ns arbitrary: m)
  case Nil
  then show ?case by simp
next
  case (Cons N rest)
  show ?case
  proof (cases "m N")
    case None
    have "\<forall>n\<in>set rest. \<forall>P. (m(N \<mapsto> T)) n = Some P \<longrightarrow> P = T"
      using Cons.prems by auto
    from Cons.IH[OF this] obtain m' where "addProducers rest T (m(N \<mapsto> T)) = Inr m'"
      by blast
    then have "addProducers (N # rest) T m = Inr m'"
      by (simp only: addProducers.simps None option.case)
    then show ?thesis by blast
  next
    case (Some P0)
    with Cons.prems have "P0 = T" by auto
    moreover have "\<forall>n\<in>set rest. \<forall>P. m n = Some P \<longrightarrow> P = T" using Cons.prems by auto
    ultimately show ?thesis using Cons.IH[of m] Some by simp
  qed
qed

lemma collectProducers_Inr:
  "collectProducers ts m = Inr m' \<Longrightarrow>
     m' n = Some P \<longleftrightarrow>
       (m n = Some P \<or> (\<exists>t\<in>set ts. n \<in> set (outputDatasetTypeNames t) \<and> label t = P))"
proof (induction ts arbitrary: m)
  case Nil
  then show ?case by simp
next
  case (Cons t rest)
  from Cons.prems obtain m1 where
    a: "addProducers (outputDatasetTypeNames t) (label t) m = Inr m1"
    and r: "collectProducers rest m1 = Inr m'"
    by (auto split: sum.splits)
  from Cons.IH[OF r] addProducers_Inr[OF a, of n P] show ?case by auto
qed

lemma collectProducers_Inl:
  "collectProducers ts m = Inl e \<Longrightarrow> \<exists>N P T. e = DuplicateOutputError N P T"
proof (induction ts arbitrary: m)
  case Nil
  then show ?case by simp
next
  case (Cons t rest)
  then show ?case
    by (auto split: sum.splits dest: addProducers_Inl)
qed

lemma collectProducers_ok:
  assumes "duplicateFree ts"
    and "\<forall>t\<in>set ts. \<forall>n\<in>set (outputDatasetTypeNames t). \<forall>P. m n = Some P \<longrightarrow> P = label t"
  shows "\<exists>m'. collectProducers ts m = Inr m'"
  using assms
proof (induction ts arbitrary: m)
  case Nil
  then show ?case by simp
next
  case (Cons t rest)
  have "\<forall>n\<in>set (outputDatasetTypeNames t). \<forall>P. m n = Some P \<longrightarrow> P = label t"
    using Cons.prems(2) by simp
  from addProducers_ok[OF this] obtain m1 where
    a: "addProducers (outputDatasetTypeNames t) (label t) m = Inr m1" by blast
  have df: "duplicateFree rest" using Cons.prems(1) by (simp add: duplicateFree_def)
  have "\<forall>u\<in>set rest. \<forall>n\<in>set (outputDatasetTypeNames u). \<forall>P. m1 n = Some P \<longrightarrow> P = label u"
  proof (intro ballI allI impI)
    fix u n P assume u: "u \<in> set rest" and n: "n \<in> set (outputDatasetTypeNames u)"
      and P: "m1 n = Some P"
    from addProducers_Inr[OF a, of n P] P
    consider "m n = Some P" | "n \<in> set (outputDatasetTypeNames t)" "label t = P" by auto
    then show "P = label u"
    proof cases
      case 1
      with Cons.prems(2) u n show ?thesis by simp
    next
      case 2
      show ?thesis
      proof (rule ccontr)
        assume "P \<noteq> label u"
        with 2 have "label t \<noteq> label u" by simp
        with Cons.prems(1) u have
          "set (outputDatasetTypeNames t) \<inter> set (outputDatasetTypeNames u) = {}"
          by (simp add: duplicateFree_def)
        with 2 n show False by auto
      qed
    qed
  qed
  from Cons.IH[OF df this] a show ?case by simp
qed

lemma collectProducers_conflict:
  assumes "p \<in> set ts" "c \<in> set ts" "label p \<noteq> label c"
    and "n \<in> set (outputDatasetTypeNames p)" "n \<in> set (outputDatasetTypeNames c)"
  shows "\<exists>N P T. collectProducers ts m = Inl (DuplicateOutputError N P T)"
proof (cases "collectProducers ts m")
  case (Inl e)
  with collectProducers_Inl[OF Inl] show ?thesis by auto
next
  case (Inr m')
  from collectProducers_Inr[OF Inr, of n "label p"] assms have "m' n = Some (label p)" by auto
  moreover from collectProducers_Inr[OF Inr, of n "label c"] assms have "m' n = Some (label c)" by auto
  ultimately show ?thesis using assms(3) by simp
qed

lemma taskEdges_set:
  "set (taskEdges producer T ns es) =
     set es \<union> {(P, T) | P n. n \<in> set ns \<and> producer n = Some P \<and> P \<noteq> T}"
  by (induction ns arbitrary: es) (auto split: option.splits)

lemma taskEdges_distinct:
  "distinct es \<Longrightarrow> distinct (taskEdges producer T ns es)"
  by (induction ns arbitrary: es) (auto split: option.splits)

lemma buildEdges_set:
  "set (buildEdges producer ts es) =
     set es \<union> {(P, label t) | P t n. t \<in> set ts \<and> n \<in> set (inputDatasetTypeNames t)
                  \<and> producer n = Some P \<and> P \<noteq> label t}"
  by (induction ts arbitrary: es) (auto simp: taskEdges_set)

lemma buildEdges_distinct:
  "distinct es \<Longrightarrow> distinct (buildEdges producer ts es)"
  by (induction ts arbitrary: es) (auto simp: taskEdges_distinct)

lemma buildGraph_Inr:
  assumes "buildGraph f p = Inr edges"
  shows "\<exists>ts. resolveAll f p = Inr ts \<and> distinct edges \<and> set edges = dependencyEdges ts"
proof -
  from assms obtain ts m where ts: "resolveAll f p = Inr ts"
    and m: "collectProducers ts Map.empty = Inr m"
    and e: "edges = buildEdges m ts []"
    by (auto simp: buildGraph_def split: sum.splits)
  have pm: "m n = Some P \<longleftrightarrow> (\<exists>t\<in>set ts. n \<in> set (outputDatasetTypeNames t) \<and> label t = P)" for n P
    using collectProducers_Inr[OF m, of n P] by simp
  have "set edges = dependencyEdges ts"
    unfolding e buildEdges_set dependencyEdges_def by (auto simp: pm)
  moreover have "distinct edges" unfolding e by (rule buildEdges_distinct) simp
  ultimately show ?thesis using ts by blast
qed

lemma buildGraph_ok:
  assumes "resolveAll f p = Inr ts" "duplicateFree ts"
  shows "\<exists>edges. buildGraph f p = Inr edges"
proof -
  from collectProducers_ok[OF assms(2), of Map.empty] obtain m where
    "collectProducers ts Map.empty = Inr m" by auto
  with assms(1) show ?thesis by (simp add: buildGraph_def)
qed

lemma buildGraph_conflict:
  assumes "resolveAll f pl = Inr ts" "p \<in> set ts" "c \<in> set ts" "label p \<noteq> label c"
    and "n \<in> set (outputDatasetTypeNames p)" "n \<in> set (outputDatasetTypeNames c)"
  shows "\<exists>N P T. buildGraph f pl = Inl (DuplicateOutputError N P T)"
  using collectProducers_conflict[OF assms(2-6), of Map.empty] assms(1)
  by (auto simp: buildGraph_def)

subsection \<open>The in-degree counters\<close>

lemma cnt_zero: "cnt edges R T = 0 \<longleftrightarrow> (\<forall>e\<in>set edges. snd e = T \<longrightarrow> fst e \<notin> R)"
  by (auto simp: cnt_def filter_empty_conv)

lemma inDegree_cnt: "fst ` set edges \<subseteq> R \<Longrightarrow> inDegree edges T = cnt edges R T"
  unfolding inDegree_def cnt_def
  by (rule arg_cong[where f = length], rule filter_cong) auto

lemma cnt_remove:
  "distinct edges \<Longrightarrow> l \<in> R \<Longrightarrow>
   cnt edges (R - {l}) T = cnt edges R T - (if (l, T) \<in> set edges then 1 else 0)"
proof (induction edges)
  case Nil
  then show ?case by (simp add: cnt_def)
next
  case (Cons e edges)
  then have IH: "cnt edges (R - {l}) T = cnt edges R T - (if (l, T) \<in> set edges then 1 else 0)"
    by simp
  have pos: "(l, T) \<in> set edges \<Longrightarrow> 0 < cnt edges R T"
    using Cons.prems(2) by (force simp: cnt_def filter_empty_conv)
  obtain a b where e: "e = (a, b)" by (cases e)
  from Cons.prems(1) have ne: "(a, b) \<notin> set edges" by (simp add: e)
  show ?case
    using IH pos ne Cons.prems(2) by (auto simp: cnt_def e)
qed

lemma decrement_distinct:
  "distinct ss \<Longrightarrow> decrement ss deg T = (if T \<in> set ss then deg T - 1 else deg T)"
  by (induction ss arbitrary: deg) auto

lemma successors_set: "T \<in> set (successors edges l) \<longleftrightarrow> (l, T) \<in> set edges"
  by (force simp: successors_def)

lemma successors_distinct: "distinct edges \<Longrightarrow> distinct (successors edges l)"
  unfolding successors_def
  by (rule distinct_map[THEN iffD2]) (auto simp: inj_on_def)

lemma labels_filter:
  "distinct (map label xs) \<Longrightarrow> t \<in> set xs \<Longrightarrow>
   label ` set (filter (\<lambda>u. label u \<noteq> label t) xs) = label ` set xs - {label t}"
  by auto

lemma mset_filter_label:
  "distinct (map label xs) \<Longrightarrow> t \<in> set xs \<Longrightarrow>
   mset xs = add_mset t (mset (filter (\<lambda>u. label u \<noteq> label t) xs))"
proof (induction xs)
  case Nil
  then show ?case by simp
next
  case (Cons x xs)
  show ?case
  proof (cases "x = t")
    case True
    with Cons.prems have "label t \<notin> label ` set xs" by simp
    then have "\<forall>u\<in>set xs. label u \<noteq> label t" by (metis imageI)
    then have "filter (\<lambda>u. label u \<noteq> label t) xs = xs" by (simp add: filter_id_conv)
    with True show ?thesis by simp
  next
    case False
    with Cons.prems have "t \<in> set xs" "label x \<noteq> label t" "distinct (map label xs)" by auto
    with Cons.IH show ?thesis by simp
  qed
qed

lemma kahn_invariant_step:
  assumes d: "distinct edges" and inv: "\<forall>T. deg T = cnt edges (label ` set remaining) T"
    and dl: "distinct (map label remaining)" and t: "t \<in> set remaining"
  shows "\<forall>T. decrement (successors edges (label t)) deg T
            = cnt edges (label ` set (filter (\<lambda>u. label u \<noteq> label t) remaining)) T"
proof
  fix T
  have "decrement (successors edges (label t)) deg T
          = (if (label t, T) \<in> set edges then deg T - 1 else deg T)"
    by (simp add: decrement_distinct[OF successors_distinct[OF d]] successors_set)
  also have "\<dots> = cnt edges (label ` set remaining) T - (if (label t, T) \<in> set edges then 1 else 0)"
    using inv by simp
  also have "\<dots> = cnt edges (label ` set remaining - {label t}) T"
    using cnt_remove[OF d, of "label t" "label ` set remaining" T] t by simp
  finally show "decrement (successors edges (label t)) deg T
            = cnt edges (label ` set (filter (\<lambda>u. label u \<noteq> label t) remaining)) T"
    by (simp only: labels_filter[OF dl t])
qed

lemma zero_ready:
  "\<forall>T. deg T = cnt edges (label ` set remaining) T \<Longrightarrow>
   (deg (label u) = 0) = ready edges remaining u"
  by (simp add: cnt_zero ready_def)

lemma find_ready:
  assumes "\<forall>T. deg T = cnt edges (label ` set remaining) T"
  shows "find (\<lambda>t. deg (label t) = 0) xs = find (ready edges remaining) xs"
  by (rule find_cong) (simp_all add: zero_ready[OF assms])

subsection \<open>The ordering loop\<close>

lemma notYetEmitted_Nil: "notYetEmitted [] xs = xs"
  by (simp add: notYetEmitted_def)

lemma notYetEmitted_Cons:
  "notYetEmitted (t # done) xs = notYetEmitted done (filter (\<lambda>u. label u \<noteq> label t) xs)"
  unfolding notYetEmitted_def filter_filter
  by (rule filter_cong) auto

lemma kahn_trace:
  "distinct edges \<Longrightarrow> (\<forall>T. deg T = cnt edges (label ` set remaining) T) \<Longrightarrow>
     distinct (map label remaining) \<Longrightarrow>
     kahn edges deg remaining emitted = Inr res \<Longrightarrow>
     \<exists>order. res = emitted @ order \<and> mset order = mset remaining \<and>
       (\<forall>k<length order.
          find (ready edges (notYetEmitted (take k order) remaining))
               (notYetEmitted (take k order) remaining) = Some (order ! k))"
proof (induction edges deg remaining emitted rule: kahn.induct)
  case (1 edges deg remaining emitted)
  show ?case
  proof (cases "remaining = []")
    case True
    with "1.prems"(4) have "res = emitted" by (simp add: kahn.simps)
    with True show ?thesis by simp
  next
    case False
    have unf: "kahn edges deg remaining emitted =
        (case find (\<lambda>t. deg (label t) = 0) remaining of
           None \<Rightarrow> Inl PipelineDataCycleError
         | Some t \<Rightarrow> kahn edges (decrement (successors edges (label t)) deg)
                (filter (\<lambda>u. label u \<noteq> label t) remaining) (emitted @ [t]))"
      using False by (subst kahn.simps) simp
    from "1.prems"(4) obtain t where
      f: "find (\<lambda>t. deg (label t) = 0) remaining = Some t"
      and k: "kahn edges (decrement (successors edges (label t)) deg)
                (filter (\<lambda>u. label u \<noteq> label t) remaining) (emitted @ [t]) = Inr res"
      unfolding unf by (cases "find (\<lambda>t. deg (label t) = 0) remaining") simp_all
    let ?rest = "filter (\<lambda>u. label u \<noteq> label t) remaining"
    from f have t: "t \<in> set remaining" by (auto simp: find_Some_iff)
    have inv': "\<forall>T. decrement (successors edges (label t)) deg T = cnt edges (label ` set ?rest) T"
      by (rule kahn_invariant_step[OF "1.prems"(1) "1.prems"(2) "1.prems"(3) t])
    have dl': "distinct (map label ?rest)"
      using "1.prems"(3) by (simp add: distinct_map_filter)
    from "1.IH"[OF False f "1.prems"(1) inv' dl' k] obtain order' where
      o: "res = (emitted @ [t]) @ order' \<and> mset order' = mset ?rest \<and>
       (\<forall>k<length order'.
          find (ready edges (notYetEmitted (take k order') ?rest))
               (notYetEmitted (take k order') ?rest) = Some (order' ! k))"
      by (rule exE)
    from o have o1: "res = (emitted @ [t]) @ order'" by (rule conjunct1)
    from o have o2: "mset order' = mset ?rest" by (rule conjunct2[THEN conjunct1])
    from o have o3: "\<forall>k<length order'.
          find (ready edges (notYetEmitted (take k order') ?rest))
               (notYetEmitted (take k order') ?rest) = Some (order' ! k)"
      by (rule conjunct2[THEN conjunct2])
    have first: "find (ready edges remaining) remaining = Some t"
      using f find_ready[OF "1.prems"(2), of remaining] by simp
    have steps: "find (ready edges (notYetEmitted (take k (t # order')) remaining))
               (notYetEmitted (take k (t # order')) remaining) = Some ((t # order') ! k)"
      if "k < length (t # order')" for k
    proof (cases k)
      case 0
      with first show ?thesis by (simp add: notYetEmitted_Nil)
    next
      case (Suc j)
      with that have j: "j < length order'" by simp
      from o3 j have "find (ready edges (notYetEmitted (take j order') ?rest))
               (notYetEmitted (take j order') ?rest) = Some (order' ! j)" by blast
      then show ?thesis
        unfolding Suc by (simp only: take_Suc_Cons notYetEmitted_Cons nth_Cons_Suc)
    qed
    show ?thesis
    proof (intro exI conjI allI impI)
      show "res = emitted @ (t # order')" using o1 by simp
      show "mset (t # order') = mset remaining"
        unfolding mset.simps o2 by (rule mset_filter_label[OF "1.prems"(3) t, symmetric])
      fix k assume "k < length (t # order')"
      then show "find (ready edges (notYetEmitted (take k (t # order')) remaining))
               (notYetEmitted (take k (t # order')) remaining) = Some ((t # order') ! k)"
        by (rule steps)
    qed
  qed
qed

lemma minimal_label:
  assumes "acyclic (set edges)" "remaining \<noteq> []"
  shows "\<exists>u\<in>set remaining. ready edges remaining u"
proof -
  let ?R = "label ` set remaining"
  let ?r = "set edges"
  have "wf ?r" using assms(1) by (simp add: finite_acyclic_wf)
  moreover have "label (hd remaining) \<in> ?R" using assms(2) by simp
  ultimately obtain z where z: "z \<in> ?R" "\<And>y. (y, z) \<in> ?r \<Longrightarrow> y \<notin> ?R"
    by (rule wfE_min) blast
  from z(1) obtain u where u: "u \<in> set remaining" "label u = z" by auto
  have "ready edges remaining u"
    unfolding ready_def using z(2) u(2) by (metis prod.collapse)
  with u(1) show ?thesis by blast
qed

lemma kahn_progress:
  "distinct edges \<Longrightarrow> acyclic (set edges) \<Longrightarrow>
     (\<forall>T. deg T = cnt edges (label ` set remaining) T) \<Longrightarrow>
     distinct (map label remaining) \<Longrightarrow>
     \<exists>res. kahn edges deg remaining emitted = Inr res"
proof (induction edges deg remaining emitted rule: kahn.induct)
  case (1 edges deg remaining emitted)
  show ?case
  proof (cases "remaining = []")
    case True
    then show ?thesis by (simp add: kahn.simps)
  next
    case False
    from minimal_label[OF "1.prems"(2) False] obtain u where
      u: "u \<in> set remaining" "ready edges remaining u" by blast
    then have "\<exists>t. find (ready edges remaining) remaining = Some t"
      by (cases "find (ready edges remaining) remaining") (auto simp: find_None_iff)
    then obtain t where f: "find (\<lambda>t. deg (label t) = 0) remaining = Some t"
      using find_ready[OF "1.prems"(3), of remaining] by auto
    let ?rest = "filter (\<lambda>u. label u \<noteq> label t) remaining"
    from f have t: "t \<in> set remaining" by (auto simp: find_Some_iff)
    have inv': "\<forall>T. decrement (successors edges (label t)) deg T = cnt edges (label ` set ?rest) T"
      by (rule kahn_invariant_step[OF "1.prems"(1) "1.prems"(3) "1.prems"(4) t])
    have dl': "distinct (map label ?rest)"
      using "1.prems"(4) by (simp add: distinct_map_filter)
    from "1.IH"[OF False f "1.prems"(1) "1.prems"(2) inv' dl'] obtain res where
      "kahn edges (decrement (successors edges (label t)) deg) ?rest (emitted @ [t]) = Inr res"
      by blast
    then have "kahn edges deg remaining emitted = Inr res"
      using False f by (subst kahn.simps) simp
    then show ?thesis by blast
  qed
qed

lemma kahn_stuck:
  "remaining \<noteq> [] \<Longrightarrow> \<forall>t\<in>set remaining. deg (label t) \<noteq> 0 \<Longrightarrow>
   kahn edges deg remaining emitted = Inl PipelineDataCycleError"
proof -
  assume a: "remaining \<noteq> []" "\<forall>t\<in>set remaining. deg (label t) \<noteq> 0"
  then have "find (\<lambda>t. deg (label t) = 0) remaining = None"
    by (simp add: find_None_iff)
  with a(1) show ?thesis by (subst kahn.simps) simp
qed

lemma kahn_Inl:
  "kahn edges deg remaining emitted = Inl e \<Longrightarrow> e = PipelineDataCycleError"
proof (induction edges deg remaining emitted rule: kahn.induct)
  case (1 edges deg remaining emitted)
  show ?case
  proof (cases "remaining = []")
    case True
    with "1.prems" show ?thesis by (simp add: kahn.simps)
  next
    case False
    show ?thesis
    proof (cases "find (\<lambda>t. deg (label t) = 0) remaining")
      case None
      with "1.prems" False show ?thesis by (subst (asm) kahn.simps) simp
    next
      case (Some t)
      with "1.prems" False have
        "kahn edges (decrement (successors edges (label t)) deg)
           (filter (\<lambda>u. label u \<noteq> label t) remaining) (emitted @ [t]) = Inl e"
        by (subst (asm) kahn.simps) simp
      from "1.IH"[OF False Some this] show ?thesis .
    qed
  qed
qed

subsection \<open>The order of the result\<close>

lemma indexOf_less: "l \<in> label ` set xs \<Longrightarrow> indexOf l xs < length xs \<and> label (xs ! indexOf l xs) = l"
  by (induction xs) auto

lemma indexOf_nth: "distinct (map label xs) \<Longrightarrow> i < length xs \<Longrightarrow> indexOf (label (xs ! i)) xs = i"
proof (induction xs arbitrary: i)
  case Nil
  then show ?case by simp
next
  case (Cons x xs)
  show ?case
  proof (cases i)
    case 0
    then show ?thesis by simp
  next
    case (Suc j)
    with Cons.prems have "j < length xs" "label x \<notin> label ` set xs" "distinct (map label xs)"
      by auto
    moreover from this have "label (xs ! j) \<noteq> label x" by (metis imageI nth_mem)
    ultimately show ?thesis using Cons.IH[of j] Suc by simp
  qed
qed

lemma find_filter: "find P (filter Q xs) = find (\<lambda>x. Q x \<and> P x) xs"
  by (induction xs) auto

lemma labels_notYetEmitted:
  "label ` set (notYetEmitted done xs) = label ` set xs - label ` set done"
  by (auto simp: notYetEmitted_def)

lemma distinct_labels_mset:
  "mset res = mset p \<Longrightarrow> distinct (map label p) \<Longrightarrow> distinct (map label res)"
proof -
  assume a: "mset res = mset p" "distinct (map label p)"
  from a(1) have "mset (map label res) = mset (map label p)" by (metis mset_map)
  with a(2) show ?thesis by (metis mset_eq_imp_distinct_iff)
qed

lemma nth_label_inj:
  fixes xs :: "'cfg TaskDef list"
  shows "distinct (map label xs) \<Longrightarrow> i < length xs \<Longrightarrow> j < length xs \<Longrightarrow>
   label (xs ! i) = label (xs ! j) \<Longrightarrow> i = j"
  by (metis indexOf_nth)

lemma graph_facts:
  assumes "buildGraph f p = Inr edges"
  shows "\<exists>ts. resolveAll f p = Inr ts \<and> distinct edges \<and> set edges = dependencyEdges ts
          \<and> fst ` set edges \<subseteq> label ` set p \<and> snd ` set edges \<subseteq> label ` set p"
proof -
  from buildGraph_Inr[OF assms] obtain ts where
    ts: "resolveAll f p = Inr ts" "distinct edges" "set edges = dependencyEdges ts" by blast
  from resolveAll_labels[OF ts(1)] have "set (map label ts) = set (map label p)" by simp
  then have l: "label ` set ts = label ` set p" by simp
  have "fst ` dependencyEdges ts \<subseteq> label ` set ts" "snd ` dependencyEdges ts \<subseteq> label ` set ts"
    by (auto simp: dependencyEdges_def)
  with ts l show ?thesis by auto
qed

lemma order_trace:
  assumes g: "buildGraph f p = Inr edges" and dl: "distinct (map label p)"
    and k: "kahn edges (inDegree edges) p [] = Inr res"
  shows "mset res = mset p \<and>
     (\<forall>k<length res.
        find (ready edges (notYetEmitted (take k res) p)) (notYetEmitted (take k res) p)
          = Some (res ! k))"
proof -
  from graph_facts[OF g] have d: "distinct edges" and src: "fst ` set edges \<subseteq> label ` set p"
    by auto
  have inv: "\<forall>T. inDegree edges T = cnt edges (label ` set p) T"
    using inDegree_cnt[OF src] by simp
  from kahn_trace[OF d inv dl k] show ?thesis by simp
qed

lemma order_topological:
  assumes g: "buildGraph f p = Inr edges" and dl: "distinct (map label p)"
    and k: "kahn edges (inDegree edges) p [] = Inr res"
    and i: "i < length res" and j: "j < length res"
    and e: "(label (res ! i), label (res ! j)) \<in> set edges"
  shows "i < j"
proof -
  from order_trace[OF g dl k] have perm: "mset res = mset p"
    and tr: "find (ready edges (notYetEmitted (take j res) p)) (notYetEmitted (take j res) p)
               = Some (res ! j)"
    using j by auto
  from tr have "ready edges (notYetEmitted (take j res) p) (res ! j)"
    by (auto simp: find_Some_iff)
  with e have "label (res ! i) \<notin> label ` set (notYetEmitted (take j res) p)"
    by (force simp: ready_def)
  moreover have "res ! i \<in> set p" using perm i by (metis nth_mem set_mset_mset)
  ultimately have "label (res ! i) \<in> label ` set (take j res)"
    by (auto simp: labels_notYetEmitted)
  then obtain i' where i': "i' < j" "label (res ! i') = label (res ! i)"
    using j by (auto simp: in_set_conv_nth)
  have "distinct (map label res)" by (rule distinct_labels_mset[OF perm dl])
  from nth_label_inj[OF this _ i i'(2)] i'(1) j show ?thesis by simp
qed

lemma topological_acyclic:
  fixes res :: "'cfg TaskDef list"
  assumes lab: "fst ` E \<subseteq> label ` set res" "snd ` E \<subseteq> label ` set res"
    and top: "\<And>i j. i < length res \<Longrightarrow> j < length res \<Longrightarrow>
                 (label (res ! i), label (res ! j)) \<in> E \<Longrightarrow> i < j"
  shows "acyclic E"
proof -
  have "E \<subseteq> inv_image less_than (\<lambda>a. indexOf a res)"
  proof
    fix x assume x: "x \<in> E"
    obtain a b where ab: "x = (a, b)" by (cases x)
    from x ab lab have "a \<in> label ` set res" "b \<in> label ` set res" by force+
    from indexOf_less[OF this(1)] indexOf_less[OF this(2)] top[of "indexOf a res" "indexOf b res"] x ab
    have "indexOf a res < indexOf b res" by simp
    with ab show "x \<in> inv_image less_than (\<lambda>a. indexOf a res)" by simp
  qed
  moreover have "wf (inv_image less_than (\<lambda>a. indexOf a res))" by simp
  ultimately have "wf E" by (rule wf_subset[rotated])
  then show ?thesis by (rule wf_acyclic)
qed

lemma orderPipeline_Inr:
  assumes "orderPipeline f p = Inr res"
  shows "\<exists>edges. buildGraph f p = Inr edges \<and> kahn edges (inDegree edges) p [] = Inr res"
  using assms by (auto simp: orderPipeline_def split: sum.splits)

lemma ready_satisfied:
  assumes se: "set edges = dependencyEdges ts" and src: "fst ` set edges \<subseteq> label ` set p"
  shows "ready edges (notYetEmitted done p) u = satisfied ts done u"
proof -
  have "fst e \<notin> label ` set (notYetEmitted done p) \<longleftrightarrow> fst e \<in> label ` set done"
    if "e \<in> set edges" for e
    using that src by (auto simp: labels_notYetEmitted)
  then show ?thesis
    unfolding ready_def satisfied_def se[symmetric] by blast
qed

lemma stable_steps:
  assumes r: "resolveAll f p = Inr ts" and dl: "distinct (map label p)"
    and o: "orderPipeline f p = Inr res"
  shows "\<forall>k<length res.
           find (\<lambda>u. label u \<notin> label ` set (take k res) \<and> satisfied ts (take k res) u) p
             = Some (res ! k)"
proof (intro allI impI)
  fix k assume k: "k < length res"
  from orderPipeline_Inr[OF o] obtain edges where g: "buildGraph f p = Inr edges"
    and kh: "kahn edges (inDegree edges) p [] = Inr res" by blast
  from graph_facts[OF g] r have se: "set edges = dependencyEdges ts"
    and src: "fst ` set edges \<subseteq> label ` set p"
    by auto
  from order_trace[OF g dl kh] k
  have "find (ready edges (notYetEmitted (take k res) p)) (notYetEmitted (take k res) p)
          = Some (res ! k)" by blast
  then have "find (\<lambda>u. label u \<notin> label ` set (take k res)
                     \<and> ready edges (notYetEmitted (take k res) p) u) p = Some (res ! k)"
    by (simp only: notYetEmitted_def[of "take k res" p] find_filter)
  then show "find (\<lambda>u. label u \<notin> label ` set (take k res) \<and> satisfied ts (take k res) u) p
             = Some (res ! k)"
    by (simp only: ready_satisfied[OF se src])
qed

lemma indexOf_found: "indexOf l xs < length xs \<Longrightarrow> label (xs ! indexOf l xs) = l"
  by (induction xs) (auto split: if_splits)

lemma kahn_identity:
  fixes p :: "'cfg TaskDef list"
  assumes d: "distinct edges" and dl: "distinct (map label p)"
    and fw: "\<forall>e\<in>set edges. indexOf (fst e) p < indexOf (snd e) p"
  shows "k \<le> length p \<Longrightarrow> (\<forall>T. deg T = cnt edges (label ` set (drop k p)) T) \<Longrightarrow>
         kahn edges deg (drop k p) (take k p) = Inr p"
proof (induction "length p - k" arbitrary: k deg)
  case 0
  then have "drop k p = []" "take k p = p" by simp_all
  then show ?case by (simp add: kahn.simps)
next
  case (Suc n)
  then have k: "k < length p" by simp
  let ?t = "p ! k"
  have dr: "drop k p = ?t # drop (Suc k) p" using k by (simp add: Cons_nth_drop_Suc)
  have zero: "deg (label ?t) = 0"
  proof -
    have "fst e \<notin> label ` set (drop k p)" if e: "e \<in> set edges" "snd e = label ?t" for e
    proof
      assume "fst e \<in> label ` set (drop k p)"
      then obtain j where j: "j < length (drop k p)" "label (drop k p ! j) = fst e"
        by (auto simp: in_set_conv_nth)
      then have j': "k + j < length p" "label (p ! (k + j)) = fst e" by simp_all
      from fw e(1) have "indexOf (fst e) p < indexOf (snd e) p" by blast
      then have "indexOf (fst e) p < indexOf (label ?t) p" unfolding e(2) .
      also have "indexOf (label ?t) p = k" by (rule indexOf_nth[OF dl k])
      finally have i: "indexOf (fst e) p < k" .
      with k have il: "indexOf (fst e) p < length p" by simp
      from indexOf_found[OF il] j'(2) have "label (p ! indexOf (fst e) p) = label (p ! (k + j))"
        by simp
      from nth_label_inj[OF dl il j'(1) this] i show False by simp
    qed
    then have "cnt edges (label ` set (drop k p)) (label ?t) = 0"
      by (simp add: cnt_zero)
    with Suc.prems(2) show ?thesis by simp
  qed
  have f: "find (\<lambda>t. deg (label t) = 0) (drop k p) = Some ?t"
    unfolding dr using zero by simp
  have tin: "?t \<in> set (drop k p)" unfolding dr by simp
  have ne: "drop k p \<noteq> []" unfolding dr by simp
  have dld: "distinct (map label (drop k p))" using dl by (simp add: drop_map[symmetric])
  have rest: "filter (\<lambda>u. label u \<noteq> label ?t) (drop k p) = drop (Suc k) p"
  proof -
    from dld have "label ?t \<notin> label ` set (drop (Suc k) p)" unfolding dr by simp
    then have "\<forall>u\<in>set (drop (Suc k) p). label u \<noteq> label ?t" by (metis imageI)
    then have "filter (\<lambda>u. label u \<noteq> label ?t) (drop (Suc k) p) = drop (Suc k) p"
      by (simp add: filter_id_conv)
    then show ?thesis unfolding dr by simp
  qed
  have inv': "\<forall>T. decrement (successors edges (label ?t)) deg T
                 = cnt edges (label ` set (drop (Suc k) p)) T"
    using kahn_invariant_step[OF d Suc.prems(2) dld tin] unfolding rest .
  have n: "n = length p - Suc k" using Suc.hyps(2) by simp
  have "kahn edges deg (drop k p) (take k p)
          = kahn edges (decrement (successors edges (label ?t)) deg)
              (filter (\<lambda>u. label u \<noteq> label ?t) (drop k p)) (take k p @ [?t])"
    by (subst kahn.simps) (simp only: ne f if_False option.case)
  also have "\<dots> = kahn edges (decrement (successors edges (label ?t)) deg)
              (drop (Suc k) p) (take (Suc k) p)"
    unfolding rest using k by (simp add: take_Suc_conv_app_nth)
  also have "\<dots> = Inr p"
    using Suc.hyps(1)[OF n _ inv'] k by simp
  finally show ?case .
qed

subsection \<open>The pipelines of the tests\<close>

lemmas model_defs = buildGraph_def orderPipeline_def isPipelineOrdered_def resolveTask_def
  inputDatasetTypeNames_def outputDatasetTypeNames_def declInputs_def declOutputs_def dictValues_def
  inDegree_def successors_def kahn.simps

lemma diamond_order: "orderPipeline None diamond = Inr diamond"
  by (simp add: diamond_def model_defs fixture_defs)

lemma diamondSwapped_order: "orderPipeline None diamondSwapped = Inr diamondSwapped"
  by (simp add: diamondSwapped_def model_defs fixture_defs)

lemma reversedDiamond_order: "orderPipeline None reversedDiamond = Inr diamond"
  by (simp add: reversedDiamond_def diamond_def model_defs fixture_defs)

lemma reversedDiamondSwapped_order:
  "orderPipeline None reversedDiamondSwapped = Inr diamondSwapped"
  by (simp add: reversedDiamondSwapped_def diamondSwapped_def model_defs fixture_defs)

lemma distinct_outputs_disjoint:
  "distinct (concat (map g ts)) \<Longrightarrow> p \<in> set ts \<Longrightarrow> c \<in> set ts \<Longrightarrow> p \<noteq> c \<Longrightarrow>
   set (g p) \<inter> set (g c) = {}"
  by (induction ts) auto

lemma duplicateFree_distinct:
  assumes "distinct (concat (map (\<lambda>t. remdups (outputDatasetTypeNames t)) ts))"
  shows "duplicateFree ts"
  unfolding duplicateFree_def
proof (intro ballI impI)
  fix p c assume "p \<in> set ts" "c \<in> set ts" "label p \<noteq> label c"
  then have "p \<in> set ts" "c \<in> set ts" "p \<noteq> c" by auto
  from distinct_outputs_disjoint[OF assms this]
  show "set (outputDatasetTypeNames p) \<inter> set (outputDatasetTypeNames c) = {}" by simp
qed

lemma acyclic_rank:
  assumes "\<forall>e\<in>E. (f (fst e) :: nat) < f (snd e)"
  shows "acyclic E"
proof -
  have "E \<subseteq> inv_image less_than f" using assms by auto
  moreover have "wf (inv_image less_than f)" by simp
  ultimately have "wf E" by (rule wf_subset[rotated])
  then show ?thesis by (rule wf_acyclic)
qed

lemma four_cycle:
  "(a, b) \<in> r \<Longrightarrow> (b, c) \<in> r \<Longrightarrow> (c, d) \<in> r \<Longrightarrow> (d, a) \<in> r \<Longrightarrow> \<not> acyclic r"
  by (meson acyclic_def trancl.intros)

lemma reversedDiamond_duplicateFree: "duplicateFree reversedDiamond"
  by (rule duplicateFree_distinct) (simp add: reversedDiamond_def model_defs fixture_defs)

lemma cyclePipeline_duplicateFree: "duplicateFree cyclePipeline"
  by (rule duplicateFree_distinct) (simp add: cyclePipeline_def model_defs fixture_defs)

lemma resolved_fixture:
  "resolveAll None diamond = Inr diamond" "resolveAll None diamondSwapped = Inr diamondSwapped"
  "resolveAll None reversedDiamond = Inr reversedDiamond"
  "resolveAll None reversedDiamondSwapped = Inr reversedDiamondSwapped"
  "resolveAll None duplicatePipeline = Inr duplicatePipeline"
  "resolveAll None cyclePipeline = Inr cyclePipeline"
  by (rule resolveAll_resolved,
      simp add: diamond_def diamondSwapped_def reversedDiamond_def reversedDiamondSwapped_def
        duplicatePipeline_def cyclePipeline_def)+

lemma labels_fixture:
  "map label diamond = [''task1'', ''task2'', ''task3'', ''task4'']"
  "map label diamondSwapped = [''task1'', ''task3'', ''task2'', ''task4'']"
  "map label reversedDiamond = [''task4'', ''task2'', ''task3'', ''task1'']"
  "map label reversedDiamondSwapped = [''task4'', ''task3'', ''task2'', ''task1'']"
  "map label duplicatePipeline = [''task1'', ''task2'', ''task3'']"
  "map label cyclePipeline = [''task1'', ''task2'', ''task3'', ''task4'']"
  by (simp_all add: diamond_def diamondSwapped_def reversedDiamond_def reversedDiamondSwapped_def
        duplicatePipeline_def cyclePipeline_def)

lemma dependencyEdges_eval:
  assumes "buildGraph None p = Inr edges" "resolveAll None p = Inr p"
  shows "dependencyEdges p = set edges"
proof -
  from graph_facts[OF assms(1)] obtain ts where "resolveAll None p = Inr ts"
    "set edges = dependencyEdges ts" by blast
  with assms(2) show ?thesis by simp
qed

lemma reversedDiamond_graph:
  "buildGraph None reversedDiamond =
     Inr [(''task1'', ''task3''), (''task1'', ''task2''), (''task3'', ''task4''), (''task2'', ''task4'')]"
  by (simp add: reversedDiamond_def model_defs fixture_defs)

lemma cyclePipeline_graph:
  "buildGraph None cyclePipeline =
     Inr [(''task3'', ''task4''), (''task2'', ''task3''), (''task1'', ''task2''), (''task4'', ''task1'')]"
  by (simp add: cyclePipeline_def model_defs fixture_defs)

lemma reversedDiamond_acyclic: "acyclic (dependencyEdges reversedDiamond)"
  unfolding dependencyEdges_eval[OF reversedDiamond_graph resolved_fixture(3)]
  by (rule acyclic_rank[where f = "\<lambda>l. of_char (last l)"]) simp

lemma cyclePipeline_cyclic: "\<not> acyclic (dependencyEdges cyclePipeline)"
  unfolding dependencyEdges_eval[OF cyclePipeline_graph resolved_fixture(6)]
  by (rule four_cycle[of "''task1''" "''task2''" _ "''task3''" "''task4''"]) simp_all

lemma reversedDiamond_unordered: "isPipelineOrdered None reversedDiamond = Inr False"
  by (simp add: reversedDiamond_def model_defs fixture_defs)

lemma diamondSwapped_ordered: "isPipelineOrdered None diamondSwapped = Inr True"
  by (simp add: diamondSwapped_def model_defs fixture_defs)

lemma duplicatePipeline_error:
  "orderPipeline None duplicatePipeline = Inl (DuplicateOutputError ''C'' ''task2'' ''task3'')"
  "isPipelineOrdered None duplicatePipeline = Inl (DuplicateOutputError ''C'' ''task2'' ''task3'')"
  "orderPipeline None (rev duplicatePipeline) = Inl (DuplicateOutputError ''C'' ''task3'' ''task2'')"
  "isPipelineOrdered None (rev duplicatePipeline) = Inl (DuplicateOutputError ''C'' ''task3'' ''task2'')"
  by (simp_all add: duplicatePipeline_def model_defs fixture_defs)

lemma cyclePipeline_stuck:
  "\<forall>t\<in>set cyclePipeline. inDegree
      [(''task3'', ''task4''), (''task2'', ''task3''), (''task1'', ''task2''), (''task4'', ''task1'')]
      (label t) \<noteq> 0"
  by (simp add: cyclePipeline_def inDegree_def)

subsection \<open>Topological order\<close>

text \<open>
  Claim C1. For a pipeline whose classes resolve, with pairwise distinct labels, no two
  tasks declaring a common output name and an acyclic dependency graph,
  \<open>orderPipeline\<close> returns a permutation of the pipeline, and for every dependency edge the
  producer's index in the result is strictly less than the consumer's index.
\<close>

theorem orderPipeline_topological:
  assumes r: "resolveAll f p = Inr ts" and dl: "distinct (map label p)"
    and df: "duplicateFree ts" and ac: "acyclic (dependencyEdges ts)"
  shows "\<exists>res. orderPipeline f p = Inr res \<and> mset res = mset p \<and>
           (\<forall>i j. i < length res \<and> j < length res \<and>
                  (label (res ! i), label (res ! j)) \<in> dependencyEdges ts \<longrightarrow> i < j)"
proof -
  from buildGraph_ok[OF r df] obtain edges where g: "buildGraph f p = Inr edges" by blast
  from graph_facts[OF g] r have d: "distinct edges" and se: "set edges = dependencyEdges ts"
    and src: "fst ` set edges \<subseteq> label ` set p"
    by auto
  have inv: "\<forall>T. inDegree edges T = cnt edges (label ` set p) T"
    using inDegree_cnt[OF src] by simp
  from ac se have ac': "acyclic (set edges)" by simp
  from kahn_progress[OF d ac' inv dl, of "[]"] obtain res where
    k: "kahn edges (inDegree edges) p [] = Inr res" by blast
  have o: "orderPipeline f p = Inr res" by (simp add: orderPipeline_def g k)
  show ?thesis
  proof (intro exI conjI allI impI)
    show "orderPipeline f p = Inr res" by (rule o)
    show "mset res = mset p" using order_trace[OF g dl k] by (rule conjunct1)
    fix i j
    assume "i < length res \<and> j < length res \<and>
            (label (res ! i), label (res ! j)) \<in> dependencyEdges ts"
    then show "i < j" using order_topological[OF g dl k, of i j] se by simp
  qed
qed

theorem orderPipeline_topological_witness:
  "orderPipeline None reversedDiamond = Inr diamond
   \<and> (\<exists>res. orderPipeline None reversedDiamond = Inr res \<and> mset res = mset reversedDiamond \<and>
           (\<forall>i j. i < length res \<and> j < length res \<and>
                  (label (res ! i), label (res ! j)) \<in> dependencyEdges reversedDiamond
                \<longrightarrow> i < j))"
proof (rule conjI)
  show "orderPipeline None reversedDiamond = Inr diamond" by (rule reversedDiamond_order)
  have dl: "distinct (map label reversedDiamond)" by (simp add: labels_fixture)
  show "\<exists>res. orderPipeline None reversedDiamond = Inr res \<and> mset res = mset reversedDiamond \<and>
           (\<forall>i j. i < length res \<and> j < length res \<and>
                  (label (res ! i), label (res ! j)) \<in> dependencyEdges reversedDiamond
                \<longrightarrow> i < j)"
    by (rule orderPipeline_topological[OF resolved_fixture(3) dl reversedDiamond_duplicateFree reversedDiamond_acyclic])
qed

subsection \<open>Stable tie-break\<close>

text \<open>
  Claim C2. At every step \<open>k\<close> of the ordering, the task emitted is the first task of the
  original pipeline among the tasks not yet emitted whose dependencies are all satisfied
  by the tasks emitted so far. In particular the diamond of the tests keeps the declared
  order of its two independent middle tasks, whether declared in order or reversed.
\<close>

theorem orderPipeline_stable:
  "(resolveAll f p = Inr ts \<and> distinct (map label p) \<and> orderPipeline f p = Inr res
      \<longrightarrow> (\<forall>k<length res.
             find (\<lambda>u. label u \<notin> label ` set (take k res) \<and> satisfied ts (take k res) u) p
               = Some (res ! k)))
   \<and> orderPipeline None diamond = Inr diamond
   \<and> orderPipeline None diamondSwapped = Inr diamondSwapped
   \<and> orderPipeline None reversedDiamond = Inr diamond
   \<and> orderPipeline None reversedDiamondSwapped = Inr diamondSwapped"
proof (intro conjI impI)
  assume "resolveAll f p = Inr ts \<and> distinct (map label p) \<and> orderPipeline f p = Inr res"
  then have "resolveAll f p = Inr ts" "distinct (map label p)" "orderPipeline f p = Inr res"
    by simp_all
  then show "\<forall>k<length res.
             find (\<lambda>u. label u \<notin> label ` set (take k res) \<and> satisfied ts (take k res) u) p
               = Some (res ! k)"
    by (rule stable_steps)
qed (rule diamond_order diamondSwapped_order reversedDiamond_order reversedDiamondSwapped_order)+

theorem orderPipeline_stable_witness:
  "orderPipeline None reversedDiamondSwapped = Inr diamondSwapped
   \<and> map label diamondSwapped = [''task1'', ''task3'', ''task2'', ''task4'']
   \<and> find (\<lambda>u. label u \<notin> label ` set (take 1 diamondSwapped)
               \<and> satisfied reversedDiamondSwapped (take 1 diamondSwapped) u) reversedDiamondSwapped
       = Some (diamondSwapped ! 1)"
proof -
  have dl: "distinct (map label reversedDiamondSwapped)" by (simp add: labels_fixture)
  have len: "1 < length diamondSwapped" by (simp add: diamondSwapped_def)
  from orderPipeline_stable[of None reversedDiamondSwapped reversedDiamondSwapped diamondSwapped]
    resolved_fixture(4) dl reversedDiamondSwapped_order
  have "\<forall>k<length diamondSwapped.
     find (\<lambda>u. label u \<notin> label ` set (take k diamondSwapped)
           \<and> satisfied reversedDiamondSwapped (take k diamondSwapped) u) reversedDiamondSwapped
       = Some (diamondSwapped ! k)"
    by blast
  with len have "find (\<lambda>u. label u \<notin> label ` set (take 1 diamondSwapped)
               \<and> satisfied reversedDiamondSwapped (take 1 diamondSwapped) u) reversedDiamondSwapped
       = Some (diamondSwapped ! 1)" by blast
  with reversedDiamondSwapped_order labels_fixture(2) show ?thesis by blast
qed

subsection \<open>The check and the sort agree\<close>

text \<open>
  Claim C3. Where neither operation raises, \<open>isPipelineOrdered\<close> is true iff
  \<open>orderPipeline\<close> returns the pipeline unchanged. On a duplicate-free pipeline whose
  classes resolve \<open>isPipelineOrdered\<close> raises nothing: it returns whether every producer
  precedes its consumers, hence false when the order is wrong.
\<close>

theorem isPipelineOrdered_iff:
  "(distinct (map label p) \<and> isPipelineOrdered f p = Inr b \<and> orderPipeline f p = Inr q
      \<longrightarrow> (b \<longleftrightarrow> q = p))
   \<and> (resolveAll f p = Inr ts \<and> duplicateFree ts
      \<longrightarrow> isPipelineOrdered f p
            = Inr (\<forall>e\<in>dependencyEdges ts. indexOf (fst e) p < indexOf (snd e) p))"
proof (intro conjI impI)
  assume a: "distinct (map label p) \<and> isPipelineOrdered f p = Inr b \<and> orderPipeline f p = Inr q"
  then have dl: "distinct (map label p)" and ib: "isPipelineOrdered f p = Inr b"
    and oq: "orderPipeline f p = Inr q" by simp_all
  from orderPipeline_Inr[OF oq] obtain edges where g: "buildGraph f p = Inr edges"
    and kh: "kahn edges (inDegree edges) p [] = Inr q" by blast
  from ib g have b: "b = list_all (\<lambda>e. indexOf (fst e) p < indexOf (snd e) p) edges"
    by (simp add: isPipelineOrdered_def)
  from graph_facts[OF g] have d: "distinct edges" and src: "fst ` set edges \<subseteq> label ` set p"
    and tgt: "snd ` set edges \<subseteq> label ` set p" by auto
  have inv: "\<forall>T. inDegree edges T = cnt edges (label ` set (drop 0 p)) T"
    using inDegree_cnt[OF src] by simp
  show "b \<longleftrightarrow> q = p"
  proof
    assume b
    with b have fw: "\<forall>e\<in>set edges. indexOf (fst e) p < indexOf (snd e) p"
      by (simp add: list_all_iff)
    from kahn_identity[OF d dl fw _ inv] have "kahn edges (inDegree edges) p [] = Inr p" by simp
    with kh show "q = p" by simp
  next
    assume qp: "q = p"
    have "indexOf (fst e) p < indexOf (snd e) p" if e: "e \<in> set edges" for e
    proof -
      from e src tgt have "fst e \<in> label ` set p" "snd e \<in> label ` set p" by auto
      from indexOf_less[OF this(1)] indexOf_less[OF this(2)] e
      show ?thesis
        using order_topological[OF g dl kh[unfolded qp], of "indexOf (fst e) p" "indexOf (snd e) p"]
        by simp
    qed
    with b show b by (simp add: list_all_iff)
  qed
next
  assume a: "resolveAll f p = Inr ts \<and> duplicateFree ts"
  then have r: "resolveAll f p = Inr ts" and df: "duplicateFree ts" by simp_all
  from buildGraph_ok[OF r df] obtain edges where g: "buildGraph f p = Inr edges" by blast
  from graph_facts[OF g] obtain ts' where "resolveAll f p = Inr ts'" "set edges = dependencyEdges ts'"
    by blast
  with r have se: "set edges = dependencyEdges ts" by simp
  show "isPipelineOrdered f p
          = Inr (\<forall>e\<in>dependencyEdges ts. indexOf (fst e) p < indexOf (snd e) p)"
    by (simp add: isPipelineOrdered_def g list_all_iff se)
qed

theorem isPipelineOrdered_iff_witness:
  "isPipelineOrdered None reversedDiamond = Inr False
   \<and> orderPipeline None reversedDiamond = Inr diamond
   \<and> diamond \<noteq> reversedDiamond
   \<and> isPipelineOrdered None diamondSwapped = Inr True
   \<and> orderPipeline None diamondSwapped = Inr diamondSwapped
   \<and> isPipelineOrdered None reversedDiamond
       = Inr (\<forall>e\<in>dependencyEdges reversedDiamond.
                indexOf (fst e) reversedDiamond < indexOf (snd e) reversedDiamond)"
proof -
  have dl: "distinct (map label reversedDiamond)" by (simp add: labels_fixture)
  from isPipelineOrdered_iff[of reversedDiamond None False diamond reversedDiamond]
    dl reversedDiamond_unordered reversedDiamond_order resolved_fixture(3)
    reversedDiamond_duplicateFree
  have "diamond \<noteq> reversedDiamond"
    and "isPipelineOrdered None reversedDiamond
       = Inr (\<forall>e\<in>dependencyEdges reversedDiamond.
                indexOf (fst e) reversedDiamond < indexOf (snd e) reversedDiamond)"
    by blast+
  with reversedDiamond_unordered reversedDiamond_order diamondSwapped_ordered diamondSwapped_order
  show ?thesis by blast
qed

subsection \<open>Duplicate producers\<close>

text \<open>
  Claim C4. If two tasks of the pipeline, in either order, declare the same output
  dataset-type name, graph construction fails with \<open>DuplicateOutputError\<close>, and so do
  \<open>isPipelineOrdered\<close> and \<open>orderPipeline\<close>, with the same error: the ordering loop is
  never entered.
\<close>

theorem duplicate_output_error:
  assumes "resolveAll f pl = Inr ts" "p \<in> set ts" "c \<in> set ts" "label p \<noteq> label c"
    and "n \<in> set (outputDatasetTypeNames p)" "n \<in> set (outputDatasetTypeNames c)"
  shows "\<exists>N P T. buildGraph f pl = Inl (DuplicateOutputError N P T)
          \<and> isPipelineOrdered f pl = Inl (DuplicateOutputError N P T)
          \<and> orderPipeline f pl = Inl (DuplicateOutputError N P T)"
proof -
  from buildGraph_conflict[OF assms] obtain N P T where
    "buildGraph f pl = Inl (DuplicateOutputError N P T)" by blast
  then show ?thesis by (simp add: isPipelineOrdered_def orderPipeline_def)
qed

theorem duplicate_output_error_witness:
  "orderPipeline None duplicatePipeline = Inl (DuplicateOutputError ''C'' ''task2'' ''task3'')
   \<and> isPipelineOrdered None duplicatePipeline = Inl (DuplicateOutputError ''C'' ''task2'' ''task3'')
   \<and> orderPipeline None (rev duplicatePipeline) = Inl (DuplicateOutputError ''C'' ''task3'' ''task2'')
   \<and> isPipelineOrdered None (rev duplicatePipeline) = Inl (DuplicateOutputError ''C'' ''task3'' ''task2'')
   \<and> (\<exists>N P T. buildGraph None duplicatePipeline = Inl (DuplicateOutputError N P T)
          \<and> isPipelineOrdered None duplicatePipeline = Inl (DuplicateOutputError N P T)
          \<and> orderPipeline None duplicatePipeline = Inl (DuplicateOutputError N P T))"
proof -
  have m: "duplicatePipeline ! 1 \<in> set duplicatePipeline" "duplicatePipeline ! 2 \<in> set duplicatePipeline"
    by (simp_all add: duplicatePipeline_def)
  have l: "label (duplicatePipeline ! 1) \<noteq> label (duplicatePipeline ! 2)"
    by (simp add: duplicatePipeline_def)
  have o: "''C'' \<in> set (outputDatasetTypeNames (duplicatePipeline ! 1))"
    "''C'' \<in> set (outputDatasetTypeNames (duplicatePipeline ! 2))"
    by (simp_all add: duplicatePipeline_def model_defs fixture_defs)
  from duplicate_output_error[OF resolved_fixture(5) m l o] duplicatePipeline_error
  show ?thesis by blast
qed

subsection \<open>Cycles\<close>

text \<open>
  Claim C5. If the dependency graph of a duplicate-free pipeline with resolved classes
  and distinct labels has a cycle, \<open>orderPipeline\<close> raises \<open>PipelineDataCycleError\<close>; the
  loop is a total function, and whenever tasks remain and none of them has in-degree
  zero it returns that error.
\<close>

theorem cycle_error:
  "(resolveAll f p = Inr ts \<and> distinct (map label p) \<and> duplicateFree ts
      \<and> \<not> acyclic (dependencyEdges ts)
    \<longrightarrow> orderPipeline f p = Inl PipelineDataCycleError)
   \<and> (remaining \<noteq> [] \<and> (\<forall>t\<in>set remaining. deg (label t) \<noteq> 0)
    \<longrightarrow> kahn edges deg remaining emitted = Inl PipelineDataCycleError)"
proof (intro conjI impI)
  assume a: "resolveAll f p = Inr ts \<and> distinct (map label p) \<and> duplicateFree ts
      \<and> \<not> acyclic (dependencyEdges ts)"
  then have r: "resolveAll f p = Inr ts" and dl: "distinct (map label p)"
    and df: "duplicateFree ts" and cyc: "\<not> acyclic (dependencyEdges ts)" by simp_all
  from buildGraph_ok[OF r df] obtain es where g: "buildGraph f p = Inr es" by blast
  from graph_facts[OF g] obtain ts' where gf: "resolveAll f p = Inr ts'"
    "set es = dependencyEdges ts'" "fst ` set es \<subseteq> label ` set p"
    "snd ` set es \<subseteq> label ` set p"
    by blast
  from gf(1) r have "ts' = ts" by simp
  with gf have se: "set es = dependencyEdges ts"
    and src: "fst ` set es \<subseteq> label ` set p" and tgt: "snd ` set es \<subseteq> label ` set p"
    by simp_all
  have o: "orderPipeline f p = kahn es (inDegree es) p []" by (simp add: orderPipeline_def g)
  show "orderPipeline f p = Inl PipelineDataCycleError"
  proof (cases "kahn es (inDegree es) p []")
    case (Inl e)
    with kahn_Inl[OF Inl] o show ?thesis by simp
  next
    case (Inr res)
    from order_trace[OF g dl Inr] have "set res = set p" by (metis set_mset_mset)
    with src tgt have lab: "fst ` set es \<subseteq> label ` set res" "snd ` set es \<subseteq> label ` set res"
      by simp_all
    have "acyclic (set es)"
      by (rule topological_acyclic[OF lab]) (rule order_topological[OF g dl Inr])
    with cyc se show ?thesis by simp
  qed
next
  assume "remaining \<noteq> [] \<and> (\<forall>t\<in>set remaining. deg (label t) \<noteq> 0)"
  then show "kahn edges deg remaining emitted = Inl PipelineDataCycleError"
    using kahn_stuck[of remaining deg edges emitted] by simp
qed

theorem cycle_error_witness:
  "orderPipeline None cyclePipeline = Inl PipelineDataCycleError
   \<and> kahn [(''task3'', ''task4''), (''task2'', ''task3''), (''task1'', ''task2''), (''task4'', ''task1'')]
        (inDegree [(''task3'', ''task4''), (''task2'', ''task3''), (''task1'', ''task2''),
                   (''task4'', ''task1'')])
        cyclePipeline [] = Inl PipelineDataCycleError"
proof -
  have dl: "distinct (map label cyclePipeline)" by (simp add: labels_fixture)
  have ne: "cyclePipeline \<noteq> []" by (simp add: cyclePipeline_def)
  let ?es = "[(''task3'', ''task4''), (''task2'', ''task3''), (''task1'', ''task2''),
              (''task4'', ''task1'')]"
  from cycle_error[of None cyclePipeline cyclePipeline cyclePipeline "inDegree ?es" ?es "[]"]
    resolved_fixture(6) dl cyclePipeline_duplicateFree cyclePipeline_cyclic ne
    cyclePipeline_stuck
  show ?thesis by blast
qed

end
